theory Spec2Isabelle
  imports Complex_Main "HOL-Library.AList" "HOL-Library.List_Lexorder"
begin

section \<open>Strings\<close>

text \<open>
  A JavaScript string is modelled by the list of the bytes of its UTF-8 encoding, so
  ASCII text is its own list of characters. The strings of this program are attribute
  values of a parsed XML document and text typed into a search box, which are sequences
  of Unicode characters and have such an encoding. Equality, concatenation, prefix, substring
  and splitting at an ASCII character act on the encoding as they act on the string.
  Two built-ins depend on Unicode tables, \<open>toLowerCase\<close> and \<open>trim\<close>; their helpers
  below are exact on ASCII text, and what is stated of the functions that call them is
  stated for ASCII strings: by a premise, or at given ASCII inputs.
\<close>

definition isAsciiChar :: "char \<Rightarrow> bool" where
  "isAsciiChar c = ((of_char c :: nat) < 128)"

definition isAscii :: "string \<Rightarrow> bool" where
  "isAscii s = list_all isAsciiChar s"

text \<open>
  \<open>s.length\<close> counts UTF-16 code units: one for each character encoded in up to three
  bytes, two for each character encoded in four. A character has one byte that is not a
  continuation byte, and a four-byte character starts with a byte from \<open>0xF0\<close> on.
\<close>

definition isContinuationByte :: "char \<Rightarrow> bool" where
  "isContinuationByte c = (128 \<le> (of_char c :: nat) \<and> (of_char c :: nat) < 192)"

definition length_utf16 :: "string \<Rightarrow> nat" where
  "length_utf16 s =
     length (filter (\<lambda>c. \<not> isContinuationByte c) s) +
     length (filter (\<lambda>c. 240 \<le> (of_char c :: nat)) s)"

text \<open>\<open>s.startsWith(p)\<close>\<close>

definition startsWith :: "string \<Rightarrow> string \<Rightarrow> bool" where
  "startsWith s p = (take (length p) s = p)"

text \<open>\<open>s.endsWith(p)\<close>\<close>

definition endsWith :: "string \<Rightarrow> string \<Rightarrow> bool" where
  "endsWith s p = (length p \<le> length s \<and> drop (length s - length p) s = p)"

text \<open>\<open>s.includes(q)\<close>: \<open>q\<close> occurs in \<open>s\<close> as a contiguous substring.\<close>

fun includes_str :: "string \<Rightarrow> string \<Rightarrow> bool" where
  "includes_str [] q = (q = [])"
| "includes_str (c # cs) q = (startsWith (c # cs) q \<or> includes_str cs q)"

text \<open>\<open>s.split(sep)\<close> for a one-character separator; the result is never empty.\<close>

fun split :: "char \<Rightarrow> string \<Rightarrow> string list" where
  "split sep [] = [] # []"
| "split sep (c # cs) =
     (let ps = split sep cs in if c = sep then [] # ps else (c # hd ps) # tl ps)"

text \<open>\<open>s.toLowerCase()\<close>, exact on ASCII text: the letters \<open>A\<close> to \<open>Z\<close> are lowered.\<close>

definition lower_char :: "char \<Rightarrow> char" where
  "lower_char c =
     (case map_of (zip ''ABCDEFGHIJKLMNOPQRSTUVWXYZ'' ''abcdefghijklmnopqrstuvwxyz'') c of
        None \<Rightarrow> c
      | Some d \<Rightarrow> d)"

definition toLowerCase :: "string \<Rightarrow> string" where
  "toLowerCase s = map lower_char s"

text \<open>
  \<open>s.trim()\<close>, exact on ASCII text: the ASCII white space and line terminators are
  dropped at both ends.
\<close>

definition isWhiteSpace :: "char \<Rightarrow> bool" where
  "isWhiteSpace c =
     (c = CHR '' '' \<or> c = CHR 0x09 \<or> c = CHR 0x0A \<or> c = CHR 0x0B \<or> c = CHR 0x0C \<or> c = CHR 0x0D)"

definition trim :: "string \<Rightarrow> string" where
  "trim s = rev (dropWhile isWhiteSpace (rev (dropWhile isWhiteSpace s)))"

text \<open>\<open>s.replace(pat, rep)\<close> with a string pattern: the first occurrence is replaced.\<close>

fun replace :: "string \<Rightarrow> string \<Rightarrow> string \<Rightarrow> string" where
  "replace [] pat rep = (if pat = [] then rep else [])"
| "replace (c # cs) pat rep =
     (if startsWith (c # cs) pat then rep @ drop (length pat) (c # cs)
      else c # replace cs pat rep)"

text \<open>
  The regular-expression atom \<open>.\<close> matches every character but the four line
  terminators: line feed, carriage return, and the line and paragraph separators
  \<open>U+2028\<close> and \<open>U+2029\<close>, whose encodings take three bytes.
\<close>

definition startsLineTerminator :: "string \<Rightarrow> bool" where
  "startsLineTerminator s =
     (startsWith s [CHR 0x0A] \<or> startsWith s [CHR 0x0D] \<or>
      startsWith s [CHR 0xE2, CHR 0x80, CHR 0xA8] \<or>
      startsWith s [CHR 0xE2, CHR 0x80, CHR 0xA9])"

text \<open>The longest prefix that holds no line terminator: what \<open>.+\<close> can take at most.\<close>

fun dotRun :: "string \<Rightarrow> string" where
  "dotRun [] = []"
| "dotRun (c # cs) = (if startsLineTerminator (c # cs) then [] else c # dotRun cs)"

text \<open>
  The capture group of \<open>(.+)\)\<close> tried at the start of \<open>rest\<close>: \<open>.+\<close> takes as many
  characters as it can (none of them a line terminator), then gives characters back
  until a closing parenthesis follows; it must keep at least one character.
\<close>

definition greedy_group :: "string \<Rightarrow> string option" where
  "greedy_group rest =
     (let run = dotRun rest;
          back = dropWhile (\<lambda>c. c \<noteq> CHR '')'') (rev run)
      in if back = [] \<or> tl back = [] then None else Some (rev (tl back)))"

text \<open>
  \<open>type.match(/Collection\((.+)\)/)\<close>: the pattern is not anchored, so it is tried at
  every position from the left; the result is the capture group of the first match.
\<close>

fun match_Collection :: "string \<Rightarrow> string option" where
  "match_Collection [] = None"
| "match_Collection (c # cs) =
     (if startsWith (c # cs) ''Collection(''
      then (case greedy_group (drop 11 (c # cs)) of
              Some g \<Rightarrow> Some g
            | None \<Rightarrow> match_Collection cs)
      else match_Collection cs)"

text \<open>
  \<open>propertyType.match(/^Collection\((.+)\)$/)\<close>: anchored at both ends, so the capture
  group is everything between \<open>Collection(\<close> and the final parenthesis, which must be
  at least one character and hold no line terminator.
\<close>

definition match_Collection_anchored :: "string \<Rightarrow> string option" where
  "match_Collection_anchored s =
     (if startsWith s ''Collection('' \<and> endsWith s '')'' \<and> 12 < length s
         \<and> dotRun (butlast (drop 11 s)) = butlast (drop 11 s)
      then Some (butlast (drop 11 s))
      else None)"

text \<open>\<open>a || b\<close> on an attribute value: a missing or empty value gives the default.\<close>

definition or_default :: "string option \<Rightarrow> string \<Rightarrow> string" where
  "or_default a d = (case a of None \<Rightarrow> d | Some v \<Rightarrow> if v = [] then d else v)"

text \<open>\<open>a || undefined\<close>\<close>

definition or_undefined :: "string option \<Rightarrow> string option" where
  "or_undefined a = (case a of None \<Rightarrow> None | Some v \<Rightarrow> if v = [] then None else Some v)"

section \<open>The document object model\<close>

text \<open>
  The parser reads the tree built by the platform's XML parser. An element carries its
  namespace, prefix, local name, attributes and child nodes; text is a node of its own.
\<close>

record attribute =
  attr_namespaceURI :: "string option"
  attr_prefix :: "string option"
  attr_localName :: string
  attr_value :: string

datatype node =
    Element (namespaceURI: "string option") (prefix: "string option") (localName: string)
      (attributes: "attribute list") (childNodes: "node list")
  | Text string

fun isElement :: "node \<Rightarrow> bool" where
  "isElement (Element ns p l as cs) = True"
| "isElement (Text t) = False"

text \<open>The qualified name \<open>prefix:localName\<close>.\<close>

definition qualifiedName :: "string option \<Rightarrow> string \<Rightarrow> string" where
  "qualifiedName p l = (case p of None \<Rightarrow> l | Some q \<Rightarrow> q @ '':'' @ l)"

definition tagName :: "node \<Rightarrow> string" where
  "tagName e = qualifiedName (prefix e) (localName e)"

text \<open>\<open>e.children\<close>: the child elements.\<close>

fun children :: "node \<Rightarrow> node list" where
  "children (Element ns p l as cs) = filter isElement cs"
| "children (Text t) = []"

text \<open>The descendant elements of a node in document order.\<close>

fun descendants :: "node \<Rightarrow> node list" where
  "descendants (Element ns p l as cs) =
     concat (map (\<lambda>c. (if isElement c then [c] else []) @ descendants c) cs)"
| "descendants (Text t) = []"

text \<open>\<open>e.textContent\<close>\<close>

fun textContent :: "node \<Rightarrow> string" where
  "textContent (Element ns p l as cs) = concat (map textContent cs)"
| "textContent (Text t) = t"

definition getElementsByTagNameNS :: "node \<Rightarrow> string \<Rightarrow> string \<Rightarrow> node list" where
  "getElementsByTagNameNS parent ns name =
     filter (\<lambda>e. namespaceURI e = Some ns \<and> localName e = name) (descendants parent)"

definition getElementsByTagName :: "node \<Rightarrow> string \<Rightarrow> node list" where
  "getElementsByTagName parent name = filter (\<lambda>e. tagName e = name) (descendants parent)"

definition getAttribute :: "node \<Rightarrow> string \<Rightarrow> string option" where
  "getAttribute e name =
     map_option attr_value
       (find (\<lambda>a. qualifiedName (attr_prefix a) (attr_localName a) = name) (attributes e))"

definition getAttributeNS :: "node \<Rightarrow> string \<Rightarrow> string \<Rightarrow> string option" where
  "getAttributeNS e ns name =
     map_option attr_value
       (find (\<lambda>a. attr_namespaceURI a = Some ns \<and> attr_localName a = name) (attributes e))"

section \<open>Metadata types\<close>

text \<open>
  The records of \<open>types.ts\<close>. Field names carry a prefix naming their record. The numeric
  facets of a property (\<open>maxLength\<close>, \<open>precision\<close>, \<open>scale\<close>) are read by nothing below
  and are left out.
\<close>

record ODataProperty =
  p_name :: string
  p_type :: string
  p_nullable :: bool
  p_isKey :: bool

record ReferentialConstraint =
  rc_property :: string
  rc_referencedProperty :: string

record ODataNavigationProperty =
  np_name :: string
  np_type :: string
  np_targetEntity :: string
  np_isCollection :: bool
  np_partner :: "string option"
  np_referentialConstraints :: "ReferentialConstraint list option"

record ODataEntity =
  e_name :: string
  e_fullName :: string
  e_namespace :: string
  e_properties :: "ODataProperty list"
  e_navigationProperties :: "ODataNavigationProperty list"
  e_keyProperties :: "string list"
  e_baseType :: "string option"

record ODataEnumMember =
  em_name :: string
  em_value :: "string option"

record ODataEnumType =
  en_name :: string
  en_fullName :: string
  en_namespace :: string
  en_members :: "ODataEnumMember list"
  en_underlyingType :: "string option"
  en_isFlags :: bool

record ODataComplexType =
  ct_name :: string
  ct_fullName :: string
  ct_namespace :: string
  ct_properties :: "ODataProperty list"
  ct_navigationProperties :: "ODataNavigationProperty list"
  ct_baseType :: "string option"
  ct_keyProperty :: "string option"

record ODataSchema =
  s_namespace :: string
  s_alias :: "string option"
  s_entities :: "ODataEntity list"
  s_complexTypes :: "ODataComplexType list"
  s_enumTypes :: "ODataEnumType list"

record ODataMetadata =
  version :: string
  schemas :: "ODataSchema list"
  allEntities :: "ODataEntity list"
  allComplexTypes :: "ODataComplexType list"
  allEnumTypes :: "ODataEnumType list"

section \<open>The metadata parser\<close>

definition EDMX_NS :: string where
  "EDMX_NS = ''http://docs.oasis-open.org/odata/ns/edmx''"

definition EDM_NS :: string where
  "EDM_NS = ''http://docs.oasis-open.org/odata/ns/edm''"

text \<open>
  \<open>findElement\<close>: the first descendant in the EDM namespace, else the first in the EDMX
  namespace, else the first descendant with that tag name, else the first child with
  that local name.
\<close>

definition findElement :: "node \<Rightarrow> string \<Rightarrow> node option" where
  "findElement parent name =
     (case getElementsByTagNameNS parent EDM_NS name of
        e # es \<Rightarrow> Some e
      | [] \<Rightarrow>
        (case getElementsByTagNameNS parent EDMX_NS name of
           e # es \<Rightarrow> Some e
         | [] \<Rightarrow>
           (case getElementsByTagName parent name of
              e # es \<Rightarrow> Some e
            | [] \<Rightarrow> find (\<lambda>c. localName c = name) (children parent))))"

text \<open>
  \<open>findElements\<close>: all descendants in the EDM namespace; when there is none, all in the
  EDMX namespace; when there is none either, the children with that local name.
\<close>

definition findElements :: "node \<Rightarrow> string \<Rightarrow> node list" where
  "findElements parent name =
     (let nsElements = getElementsByTagNameNS parent EDM_NS name in
      if nsElements \<noteq> [] then nsElements
      else let edmxElements = getElementsByTagNameNS parent EDMX_NS name in
        if edmxElements \<noteq> [] then edmxElements
        else filter (\<lambda>c. localName c = name) (children parent))"

definition parseProperty :: "node \<Rightarrow> string list \<Rightarrow> ODataProperty" where
  "parseProperty propElement keyProperties =
     (let name = or_default (getAttribute propElement ''Name'') ''Unknown'';
          type = or_default (getAttribute propElement ''Type'') ''Edm.String'';
          nullableAttr = getAttribute propElement ''Nullable''
      in \<lparr> p_name = name, p_type = type, p_nullable = (nullableAttr \<noteq> Some ''false''),
           p_isKey = (name \<in> set keyProperties) \<rparr>)"

definition parseNavigationProperty :: "node \<Rightarrow> ODataNavigationProperty" where
  "parseNavigationProperty navPropElement =
     (let name = or_default (getAttribute navPropElement ''Name'') ''Unknown'';
          type = or_default (getAttribute navPropElement ''Type'') '''';
          partner = or_undefined (getAttribute navPropElement ''Partner'');
          isCollection = startsWith type ''Collection('';
          targetEntity =
            (if isCollection
             then (case match_Collection type of Some g \<Rightarrow> g | None \<Rightarrow> type)
             else type);
          parts = split (CHR ''.'') targetEntity;
          constraintElements = findElements navPropElement ''ReferentialConstraint'';
          referentialConstraints =
            map (\<lambda>el. \<lparr> rc_property = or_default (getAttribute el ''Property'') '''',
                        rc_referencedProperty =
                          or_default (getAttribute el ''ReferencedProperty'') '''' \<rparr>)
              constraintElements
      in \<lparr> np_name = name, np_type = type, np_targetEntity = last parts,
           np_isCollection = isCollection, np_partner = partner,
           np_referentialConstraints =
             (if referentialConstraints \<noteq> [] then Some referentialConstraints else None) \<rparr>)"

definition parseEntityType :: "node \<Rightarrow> string \<Rightarrow> ODataEntity" where
  "parseEntityType entityElement namespace =
     (let name = or_default (getAttribute entityElement ''Name'') ''Unknown'';
          baseType = or_undefined (getAttribute entityElement ''BaseType'');
          keyProperties =
            (case findElement entityElement ''Key'' of
               None \<Rightarrow> []
             | Some keyElement \<Rightarrow>
                 concat (map (\<lambda>ref. case or_undefined (getAttribute ref ''Name'') of
                                       None \<Rightarrow> [] | Some keyName \<Rightarrow> [keyName])
                           (findElements keyElement ''PropertyRef'')));
          properties =
            map (\<lambda>el. parseProperty el keyProperties) (findElements entityElement ''Property'');
          navigationProperties =
            map parseNavigationProperty (findElements entityElement ''NavigationProperty'')
      in \<lparr> e_name = name, e_fullName = namespace @ ''.'' @ name, e_namespace = namespace,
           e_properties = properties, e_navigationProperties = navigationProperties,
           e_keyProperties = keyProperties, e_baseType = baseType \<rparr>)"

definition parseComplexType :: "node \<Rightarrow> string \<Rightarrow> ODataComplexType" where
  "parseComplexType complexElement namespace =
     (let name = or_default (getAttribute complexElement ''Name'') ''Unknown'';
          baseType = or_undefined (getAttribute complexElement ''BaseType'');
          keyProperty =
            (case or_undefined
                    (getAttributeNS complexElement ''https://www.elite.com/schemas'' ''Key'') of
               Some k \<Rightarrow> Some k
             | None \<Rightarrow> or_undefined (getAttribute complexElement ''E3E:Key''));
          properties =
            map (\<lambda>el. parseProperty el (case keyProperty of Some k \<Rightarrow> [k] | None \<Rightarrow> []))
              (findElements complexElement ''Property'');
          navigationProperties =
            map parseNavigationProperty (findElements complexElement ''NavigationProperty'')
      in \<lparr> ct_name = name, ct_fullName = namespace @ ''.'' @ name, ct_namespace = namespace,
           ct_properties = properties, ct_navigationProperties = navigationProperties,
           ct_baseType = baseType, ct_keyProperty = keyProperty \<rparr>)"

definition parseEnumType :: "node \<Rightarrow> string \<Rightarrow> ODataEnumType" where
  "parseEnumType enumElement namespace =
     (let name = or_default (getAttribute enumElement ''Name'') ''Unknown'';
          underlyingType = or_undefined (getAttribute enumElement ''UnderlyingType'');
          isFlags = (getAttribute enumElement ''IsFlags'' = Some ''true'');
          members =
            map (\<lambda>el. \<lparr> em_name = or_default (getAttribute el ''Name'') ''Unknown'',
                        em_value = or_undefined (getAttribute el ''Value'') \<rparr>)
              (findElements enumElement ''Member'')
      in \<lparr> en_name = name, en_fullName = namespace @ ''.'' @ name, en_namespace = namespace,
           en_members = members, en_underlyingType = underlyingType, en_isFlags = isFlags \<rparr>)"

definition parseSchema :: "node \<Rightarrow> ODataSchema" where
  "parseSchema schemaElement =
     (let namespace = or_default (getAttribute schemaElement ''Namespace'') ''Default'';
          alias = or_undefined (getAttribute schemaElement ''Alias'')
      in \<lparr> s_namespace = namespace, s_alias = alias,
           s_entities =
             map (\<lambda>el. parseEntityType el namespace) (findElements schemaElement ''EntityType''),
           s_complexTypes =
             map (\<lambda>el. parseComplexType el namespace) (findElements schemaElement ''ComplexType''),
           s_enumTypes =
             map (\<lambda>el. parseEnumType el namespace) (findElements schemaElement ''EnumType'') \<rparr>)"

text \<open>
  \<open>parser.parseFromString(xmlString, 'application/xml')\<close> is the platform's XML parser,
  not code of the repository. The text is taken by what the parser makes of it: either
  it is not well-formed, and the parser reports a diagnostic, or it is well-formed, and
  the parser builds its element tree.
\<close>

datatype parse_outcome = NotWellFormed string | WellFormed node

text \<open>
  The document the parser hands back. For text that is not well-formed the document
  holds a \<open>parsererror\<close> element with the diagnostic as its text.
\<close>

fun documentElement :: "parse_outcome \<Rightarrow> node option" where
  "documentElement (NotWellFormed diagnostic) =
     Some (Element (Some ''http://www.mozilla.org/newlayout/xml/parsererror.xml'') None
       ''parsererror'' [] [Text diagnostic])"
| "documentElement (WellFormed rootElement) = Some rootElement"

text \<open>
  \<open>doc.querySelector(name)\<close> for a type selector: the first element of the document, in
  document order, with that local name.
\<close>

definition querySelector :: "parse_outcome \<Rightarrow> string \<Rightarrow> node option" where
  "querySelector doc name =
     (case documentElement doc of
        None \<Rightarrow> None
      | Some rootElement \<Rightarrow> find (\<lambda>e. localName e = name) (rootElement # descendants rootElement))"

text \<open>
  \<open>parseODataMetadata\<close>: an exception thrown is \<open>Inl\<close> with its message, the metadata
  returned is \<open>Inr\<close>.
\<close>

definition parseODataMetadata :: "parse_outcome \<Rightarrow> string + ODataMetadata" where
  "parseODataMetadata doc =
     (case querySelector doc ''parsererror'' of
        Some parseError \<Rightarrow> Inl (''XML Parse Error: '' @ textContent parseError)
      | None \<Rightarrow>
        (case documentElement doc of
           None \<Rightarrow> Inl ''Invalid OData metadata: Root element must be Edmx''
         | Some rootElement \<Rightarrow>
           if \<not> includes_str (toLowerCase (localName rootElement)) ''edmx''
           then Inl ''Invalid OData metadata: Root element must be Edmx''
           else
             (case findElement rootElement ''DataServices'' of
                None \<Rightarrow> Inl ''Invalid OData metadata: Missing DataServices element''
              | Some dataServices \<Rightarrow>
                  let version = or_default (getAttribute rootElement ''Version'') ''4.0'';
                      schemas = map parseSchema (findElements dataServices ''Schema'')
                  in Inr \<lparr> version = version, schemas = schemas,
                           allEntities = concat (map s_entities schemas),
                           allComplexTypes = concat (map s_complexTypes schemas),
                           allEnumTypes = concat (map s_enumTypes schemas) \<rparr>)))"

section \<open>The view state store\<close>

datatype kind = EntityKind | ComplexKind

record NavigationPathStep =
  nps_kind :: kind
  nps_typeName :: string
  nps_propertyName :: string
  nps_displayName :: string

record AppState =
  st_metadata :: "ODataMetadata option"
  st_selectedEntity :: "ODataEntity option"
  st_searchQuery :: string
  st_error :: "string option"
  st_loading :: bool
  st_collapsedNamespaces :: "string set"
  st_diagramRootEntity :: "ODataEntity option"
  st_diagramExpandedNodes :: "string set"
  st_navigationPath :: "NavigationPathStep list"

text \<open>The state the store starts with.\<close>

definition initialState :: AppState where
  "initialState =
     \<lparr> st_metadata = None, st_selectedEntity = None, st_searchQuery = [],
       st_error = None, st_loading = False, st_collapsedNamespaces = {},
       st_diagramRootEntity = None, st_diagramExpandedNodes = {},
       st_navigationPath = [] \<rparr>"

text \<open>
  Each transition builds the new state from the old one (\<open>{...this.state, ...}\<close>) and
  then notifies the listeners; the listeners only read the state.
\<close>

definition setMetadata :: "ODataMetadata option \<Rightarrow> AppState \<Rightarrow> AppState" where
  "setMetadata metadata state =
     state \<lparr> st_metadata := metadata, st_selectedEntity := None, st_error := None,
             st_collapsedNamespaces := {}, st_diagramRootEntity := None,
             st_diagramExpandedNodes := {} \<rparr>"

definition setSearchQuery :: "string \<Rightarrow> AppState \<Rightarrow> AppState" where
  "setSearchQuery query state = state \<lparr> st_searchQuery := query \<rparr>"

definition setError :: "string option \<Rightarrow> AppState \<Rightarrow> AppState" where
  "setError error state = state \<lparr> st_error := error, st_loading := False \<rparr>"

definition setLoading :: "bool \<Rightarrow> AppState \<Rightarrow> AppState" where
  "setLoading loading state = state \<lparr> st_loading := loading \<rparr>"

text \<open>
  \<open>handleParse\<close> of the input component: the guard on blank text, the two store calls
  made at once, then the body of the timer callback, run on the state they leave.
\<close>

definition handleParse :: "string \<Rightarrow> parse_outcome \<Rightarrow> AppState \<Rightarrow> AppState" where
  "handleParse xml doc state =
     (if trim xml = [] then setError (Some ''Please provide XML content'') state
      else
        let state1 = setError None (setLoading True state)
        in (case parseODataMetadata doc of
              Inr metadata \<Rightarrow> setLoading False (setMetadata (Some metadata) state1)
            | Inl message \<Rightarrow> setError (Some message) state1))"

text \<open>The callback of the filter in \<open>getFilteredEntities\<close>; its tests run in this order.\<close>

definition entityMatches :: "string \<Rightarrow> ODataEntity \<Rightarrow> bool" where
  "entityMatches query entity =
     (if includes_str (toLowerCase (e_name entity)) query then True
      else if includes_str (toLowerCase (e_namespace entity)) query then True
      else if includes_str (toLowerCase (e_fullName entity)) query then True
      else if list_ex (\<lambda>p. includes_str (toLowerCase (p_name p)) query) (e_properties entity)
        then True
      else if list_ex (\<lambda>p. includes_str (toLowerCase (p_type p)) query) (e_properties entity)
        then True
      else if list_ex (\<lambda>np. includes_str (toLowerCase (np_name np)) query)
          (e_navigationProperties entity)
        then True
      else if list_ex (\<lambda>np. includes_str (toLowerCase (np_targetEntity np)) query)
          (e_navigationProperties entity)
        then True
      else if list_ex (\<lambda>k. includes_str (toLowerCase k) query) (e_keyProperties entity)
        then True
      else if (case e_baseType entity of
                 None \<Rightarrow> False
               | Some b \<Rightarrow> b \<noteq> [] \<and> includes_str (toLowerCase b) query)
        then True
      else False)"

definition getFilteredEntities :: "AppState \<Rightarrow> ODataEntity list" where
  "getFilteredEntities state =
     (case st_metadata state of
        None \<Rightarrow> []
      | Some metadata \<Rightarrow>
          let query = trim (toLowerCase (st_searchQuery state))
          in if query = [] then allEntities metadata
             else filter (entityMatches query) (allEntities metadata))"

text \<open>
  \<open>isComplexTypeCollection\<close> returns the pair \<open>{isCollection, typeName}\<close>.
\<close>

definition isComplexTypeCollection :: "AppState \<Rightarrow> string \<Rightarrow> bool \<times> string option" where
  "isComplexTypeCollection state propertyType =
     (case match_Collection_anchored propertyType of
        None \<Rightarrow> (False, None)
      | Some innerType \<Rightarrow>
        (case st_metadata state of
           None \<Rightarrow> (True, None)
         | Some metadata \<Rightarrow>
             let typeName = (if last (split (CHR ''.'') innerType) = [] then innerType
                             else last (split (CHR ''.'') innerType));
                 isComplex = list_ex (\<lambda>ct. ct_name ct = typeName \<or> ct_fullName ct = innerType)
                               (allComplexTypes metadata)
             in (True, if isComplex then Some typeName else None)))"

section \<open>Match hints of the sidebar\<close>

text \<open>The arrow that starts a navigation-target hint, in its UTF-8 encoding.\<close>

definition arrow :: string where
  "arrow = [CHR 0xE2, CHR 0x86, CHR 0x92]"

definition getMatchHint :: "ODataEntity \<Rightarrow> string \<Rightarrow> string option" where
  "getMatchHint entity query =
     (if query = [] then None
      else
        let q = toLowerCase query in
        if includes_str (toLowerCase (e_name entity)) q then None
        else
          (case find (\<lambda>p. includes_str (toLowerCase (p_name p)) q) (e_properties entity) of
             Some matchedProp \<Rightarrow> Some (''prop: '' @ p_name matchedProp)
           | None \<Rightarrow>
          (case find (\<lambda>p. includes_str (toLowerCase (p_type p)) q) (e_properties entity) of
             Some matchedType \<Rightarrow> Some (''type: '' @ replace (p_type matchedType) ''Edm.'' [])
           | None \<Rightarrow>
          (case find (\<lambda>np. includes_str (toLowerCase (np_name np)) q)
                  (e_navigationProperties entity) of
             Some matchedNav \<Rightarrow> Some (''nav: '' @ np_name matchedNav)
           | None \<Rightarrow>
          (case find (\<lambda>np. includes_str (toLowerCase (np_targetEntity np)) q)
                  (e_navigationProperties entity) of
             Some matchedTarget \<Rightarrow> Some (arrow @ '' '' @ np_targetEntity matchedTarget)
           | None \<Rightarrow>
          if includes_str (toLowerCase (e_namespace entity)) q
          then Some (''ns: '' @ e_namespace entity)
          else
          (case find (\<lambda>k. includes_str (toLowerCase k) q) (e_keyProperties entity) of
             Some matchedKey \<Rightarrow> if matchedKey = [] then None else Some (''key: '' @ matchedKey)
           | None \<Rightarrow> None))))))"

section \<open>The graph builder\<close>

text \<open>
  A JavaScript \<open>Map\<close> is modelled by the list of its entries in the order they were
  set; a later entry for a key overrides an earlier one.
\<close>

definition mapGet :: "('k \<times> 'v) list \<Rightarrow> 'k \<Rightarrow> 'v option" where
  "mapGet entries k = map_of (rev entries) k"

record DiagramNode =
  dn_id :: string
  dn_name :: string
  dn_displayName :: string
  dn_entity :: "ODataEntity option"
  dn_complexType :: "ODataComplexType option"
  dn_kind :: kind
  dn_isRoot :: bool
  dn_isSelected :: bool
  dn_isExpanded :: bool
  dn_relationshipCount :: nat
  dn_collectionCount :: nat
  dn_depth :: nat
  dn_width :: rat
  dn_height :: rat
  dn_x :: rat
  dn_y :: rat

record DiagramLink =
  dl_source :: DiagramNode
  dl_target :: DiagramNode
  dl_isCollection :: bool
  dl_isNested :: bool
  dl_navProperty :: string

definition NODE_HEIGHT :: rat where "NODE_HEIGHT = 28"

definition NODE_PADDING :: rat where "NODE_PADDING = 12"

definition CHAR_WIDTH :: rat where "CHAR_WIDTH = 7"

definition LEVEL_HEIGHT :: rat where "LEVEL_HEIGHT = 80"

definition NODE_SPACING :: rat where "NODE_SPACING = 20"

definition calculateNodeWidth :: "string \<Rightarrow> rat" where
  "calculateNodeWidth name =
     max 60 (of_nat (length_utf16 name) * CHAR_WIDTH + NODE_PADDING * 2)"

text \<open>\<open>name.replace(/^c_/, '')\<close>\<close>

definition stripPrefix_c :: "string \<Rightarrow> string" where
  "stripPrefix_c name = (if startsWith name ''c_'' then drop 2 name else name)"

record NestedCollection =
  nc_propName :: string
  nc_typeName :: string

text \<open>
  \<open>getNestedCollections\<close> asks the store, whose metadata is the one being drawn.
\<close>

fun getNestedCollections :: "AppState \<Rightarrow> ODataProperty list \<Rightarrow> NestedCollection list" where
  "getNestedCollections state [] = []"
| "getNestedCollections state (prop # props) =
     (case isComplexTypeCollection state (p_type prop) of
        (isCollection, Some typeName) \<Rightarrow>
          if isCollection \<and> typeName \<noteq> []
          then \<lparr> nc_propName = p_name prop, nc_typeName = typeName \<rparr>
                 # getNestedCollections state props
          else getNestedCollections state props
      | (isCollection, None) \<Rightarrow> getNestedCollections state props)"

datatype QueueItem =
    EntityItem ODataEntity nat
  | ComplexItem ODataComplexType nat string

fun itemName :: "QueueItem \<Rightarrow> string" where
  "itemName (EntityItem entity depth) = e_name entity"
| "itemName (ComplexItem complexType depth parentProp) = ct_name complexType"

text \<open>
  What \<open>buildGraph\<close> is given and what it fixes before its loop: the root and selected
  entity, the expanded nodes, the two lookup maps and the store.
\<close>

record GraphContext =
  gc_rootEntity :: ODataEntity
  gc_selectedEntity :: "ODataEntity option"
  gc_expandedNodes :: "string set"
  gc_entityMap :: "(string \<times> ODataEntity) list"
  gc_complexTypeMap :: "(string \<times> ODataComplexType) list"
  gc_store :: AppState

text \<open>What the loop changes besides the queue.\<close>

record GraphState =
  gs_visited :: "string set"
  gs_nodes :: "DiagramNode list"
  gs_nodeMap :: "(string \<times> DiagramNode) list"

text \<open>
  The loop over navigation properties that queues their targets; it stops once
  \<open>childCount\<close> reaches \<open>maxChildren\<close>.
\<close>

fun pushNavTargets ::
  "GraphContext \<Rightarrow> string set \<Rightarrow> nat \<Rightarrow> nat \<Rightarrow> ODataNavigationProperty list
     \<Rightarrow> QueueItem list \<times> nat \<Rightarrow> QueueItem list \<times> nat" where
  "pushNavTargets ctx visited maxChildren depth [] (queue, childCount) = (queue, childCount)"
| "pushNavTargets ctx visited maxChildren depth (nav # rest) (queue, childCount) =
     (if childCount \<ge> maxChildren then (queue, childCount)
      else
        (case mapGet (gc_entityMap ctx) (np_targetEntity nav) of
           Some targetEntity \<Rightarrow>
             if np_targetEntity nav \<notin> visited
             then pushNavTargets ctx visited maxChildren depth rest
                    (queue @ [EntityItem targetEntity (depth + 1)], childCount + 1)
             else pushNavTargets ctx visited maxChildren depth rest (queue, childCount)
         | None \<Rightarrow> pushNavTargets ctx visited maxChildren depth rest (queue, childCount)))"

text \<open>The loop over nested collections that queues their complex types.\<close>

fun pushNestedTypes ::
  "GraphContext \<Rightarrow> string set \<Rightarrow> nat \<Rightarrow> nat \<Rightarrow> NestedCollection list
     \<Rightarrow> QueueItem list \<times> nat \<Rightarrow> QueueItem list \<times> nat" where
  "pushNestedTypes ctx visited maxChildren depth [] (queue, childCount) = (queue, childCount)"
| "pushNestedTypes ctx visited maxChildren depth (nested # rest) (queue, childCount) =
     (if childCount \<ge> maxChildren then (queue, childCount)
      else
        (case mapGet (gc_complexTypeMap ctx) (nc_typeName nested) of
           Some complexType \<Rightarrow>
             if nc_typeName nested \<notin> visited
             then pushNestedTypes ctx visited maxChildren depth rest
                    (queue @ [ComplexItem complexType (depth + 1) (nc_propName nested)],
                     childCount + 1)
             else pushNestedTypes ctx visited maxChildren depth rest (queue, childCount)
         | None \<Rightarrow> pushNestedTypes ctx visited maxChildren depth rest (queue, childCount)))"

text \<open>
  One turn of the loop for the item just taken from the queue: the rest of the queue and
  the state go in, the new queue and state come out.
\<close>

fun visitItem ::
  "GraphContext \<Rightarrow> QueueItem \<Rightarrow> QueueItem list \<Rightarrow> GraphState \<Rightarrow> QueueItem list \<times> GraphState"
  where
  "visitItem ctx (EntityItem entity depth) queue gs =
     (if e_name entity \<in> gs_visited gs then (queue, gs)
      else
        let visited = insert (e_name entity) (gs_visited gs);
            isRoot = (e_name entity = e_name (gc_rootEntity ctx));
            isExpanded = (e_name entity \<in> gc_expandedNodes ctx);
            isSelected = (case gc_selectedEntity ctx of
                            None \<Rightarrow> False
                          | Some selected \<Rightarrow> e_name selected = e_name entity);
            nestedCollections = getNestedCollections (gc_store ctx) (e_properties entity);
            node = \<lparr> dn_id = e_name entity, dn_name = e_name entity,
                     dn_displayName = e_name entity, dn_entity = Some entity,
                     dn_complexType = None, dn_kind = EntityKind, dn_isRoot = isRoot,
                     dn_isSelected = isSelected, dn_isExpanded = isExpanded,
                     dn_relationshipCount = length (e_navigationProperties entity),
                     dn_collectionCount = length nestedCollections, dn_depth = depth,
                     dn_width = calculateNodeWidth (e_name entity), dn_height = NODE_HEIGHT,
                     dn_x = 0, dn_y = 0 \<rparr>;
            gs' = \<lparr> gs_visited = visited, gs_nodes = gs_nodes gs @ [node],
                    gs_nodeMap = gs_nodeMap gs @ [(e_name entity, node)] \<rparr>
        in if isExpanded \<or> isRoot
           then
             let maxChildren = (if isRoot then 15 else 8);
                 afterNavs = pushNavTargets ctx visited maxChildren depth
                               (e_navigationProperties entity) (queue, 0);
                 afterNested = pushNestedTypes ctx visited maxChildren depth
                                 nestedCollections afterNavs
             in (fst afterNested, gs')
           else (queue, gs'))"
| "visitItem ctx (ComplexItem complexType depth parentProp) queue gs =
     (if ct_name complexType \<in> gs_visited gs then (queue, gs)
      else
        let visited = insert (ct_name complexType) (gs_visited gs);
            isExpanded = (ct_name complexType \<in> gc_expandedNodes ctx);
            nestedCollections =
              getNestedCollections (gc_store ctx) (ct_properties complexType);
            displayName = stripPrefix_c (ct_name complexType);
            node = \<lparr> dn_id = ct_name complexType, dn_name = ct_name complexType,
                     dn_displayName = displayName, dn_entity = None,
                     dn_complexType = Some complexType, dn_kind = ComplexKind,
                     dn_isRoot = False, dn_isSelected = False, dn_isExpanded = isExpanded,
                     dn_relationshipCount = length (ct_navigationProperties complexType),
                     dn_collectionCount = length nestedCollections, dn_depth = depth,
                     dn_width = calculateNodeWidth displayName, dn_height = NODE_HEIGHT,
                     dn_x = 0, dn_y = 0 \<rparr>;
            gs' = \<lparr> gs_visited = visited, gs_nodes = gs_nodes gs @ [node],
                    gs_nodeMap = gs_nodeMap gs @ [(ct_name complexType, node)] \<rparr>
        in if isExpanded
           then
             let maxChildren = 6;
                 afterNested = pushNestedTypes ctx visited maxChildren depth
                                 nestedCollections (queue, 0);
                 afterNavs = pushNavTargets ctx visited maxChildren depth
                               (ct_navigationProperties complexType) afterNested
             in (fst afterNavs, gs')
           else (queue, gs'))"

text \<open>
  The loop ends: the names it can ever meet are those of the values of the two maps and
  of the items queued, a finite set, and each turn either marks one more of them as
  visited or leaves the marks alone and shortens the queue.
\<close>

definition graphUniverse :: "GraphContext \<Rightarrow> QueueItem list \<Rightarrow> string set" where
  "graphUniverse ctx queue =
     e_name ` snd ` set (gc_entityMap ctx) \<union> ct_name ` snd ` set (gc_complexTypeMap ctx) \<union>
     itemName ` set queue"

lemma mapGet_SomeD: "mapGet entries k = Some v \<Longrightarrow> (k, v) \<in> set entries"
  unfolding mapGet_def by (drule map_of_SomeD) simp

lemma pushNavTargets_names:
  "itemName ` set (fst (pushNavTargets ctx visited m d navs (queue, c)))
     \<subseteq> itemName ` set queue \<union> e_name ` snd ` set (gc_entityMap ctx)"
proof (induction navs arbitrary: queue c)
  case Nil
  then show ?case by simp
next
  case (Cons nav rest)
  show ?case
  proof (cases "mapGet (gc_entityMap ctx) (np_targetEntity nav)")
    case None
    then show ?thesis using Cons.IH [of queue c] by simp
  next
    case (Some t)
    then have mem: "e_name t \<in> e_name ` snd ` set (gc_entityMap ctx)"
      by (force dest: mapGet_SomeD)
    have "itemName ` set (fst (pushNavTargets ctx visited m d rest
          (queue @ [EntityItem t (d + 1)], c + 1)))
        \<subseteq> itemName ` set (queue @ [EntityItem t (d + 1)])
            \<union> e_name ` snd ` set (gc_entityMap ctx)"
      by (rule Cons.IH)
    also have "\<dots> \<subseteq> itemName ` set queue \<union> e_name ` snd ` set (gc_entityMap ctx)"
      using mem by auto
    finally show ?thesis
      using Some Cons.IH [of queue c] by simp
  qed
qed

lemma pushNestedTypes_names:
  "itemName ` set (fst (pushNestedTypes ctx visited m d ncs (queue, c)))
     \<subseteq> itemName ` set queue \<union> ct_name ` snd ` set (gc_complexTypeMap ctx)"
proof (induction ncs arbitrary: queue c)
  case Nil
  then show ?case by simp
next
  case (Cons nested rest)
  show ?case
  proof (cases "mapGet (gc_complexTypeMap ctx) (nc_typeName nested)")
    case None
    then show ?thesis using Cons.IH [of queue c] by simp
  next
    case (Some t)
    then have mem: "ct_name t \<in> ct_name ` snd ` set (gc_complexTypeMap ctx)"
      by (force dest: mapGet_SomeD)
    have "itemName ` set (fst (pushNestedTypes ctx visited m d rest
          (queue @ [ComplexItem t (d + 1) (nc_propName nested)], c + 1)))
        \<subseteq> itemName ` set (queue @ [ComplexItem t (d + 1) (nc_propName nested)])
            \<union> ct_name ` snd ` set (gc_complexTypeMap ctx)"
      by (rule Cons.IH)
    also have "\<dots> \<subseteq> itemName ` set queue \<union> ct_name ` snd ` set (gc_complexTypeMap ctx)"
      using mem by auto
    finally show ?thesis
      using Some Cons.IH [of queue c] by simp
  qed
qed

lemma visitItem_seen:
  "itemName item \<in> gs_visited gs \<Longrightarrow> visitItem ctx item queue gs = (queue, gs)"
  by (cases item) simp_all

lemma visitItem_visited:
  "itemName item \<notin> gs_visited gs \<Longrightarrow>
     gs_visited (snd (visitItem ctx item queue gs)) = insert (itemName item) (gs_visited gs)"
  by (cases item) (simp_all add: Let_def)

lemma entityMap_universe: "e_name ` snd ` set (gc_entityMap ctx) \<subseteq> graphUniverse ctx q0"
  unfolding graphUniverse_def by auto

lemma complexTypeMap_universe:
  "ct_name ` snd ` set (gc_complexTypeMap ctx) \<subseteq> graphUniverse ctx q0"
  unfolding graphUniverse_def by auto

lemma queue_universe: "itemName ` set queue \<subseteq> graphUniverse ctx queue"
  unfolding graphUniverse_def by (rule Un_upper2)

lemma pushNavTargets_universe:
  assumes "itemName ` set (fst qc) \<subseteq> graphUniverse ctx q0"
  shows "itemName ` set (fst (pushNavTargets ctx visited m d navs qc)) \<subseteq> graphUniverse ctx q0"
proof -
  obtain queue c where qc: "qc = (queue, c)" by (cases qc)
  have "itemName ` set queue \<subseteq> graphUniverse ctx q0" using assms unfolding qc by simp
  then have "itemName ` set queue \<union> e_name ` snd ` set (gc_entityMap ctx)
      \<subseteq> graphUniverse ctx q0"
    using entityMap_universe by (rule Un_least)
  with pushNavTargets_names show ?thesis unfolding qc by (rule subset_trans)
qed

lemma pushNestedTypes_universe:
  assumes "itemName ` set (fst qc) \<subseteq> graphUniverse ctx q0"
  shows "itemName ` set (fst (pushNestedTypes ctx visited m d ncs qc)) \<subseteq> graphUniverse ctx q0"
proof -
  obtain queue c where qc: "qc = (queue, c)" by (cases qc)
  have "itemName ` set queue \<subseteq> graphUniverse ctx q0" using assms unfolding qc by simp
  then have "itemName ` set queue \<union> ct_name ` snd ` set (gc_complexTypeMap ctx)
      \<subseteq> graphUniverse ctx q0"
    using complexTypeMap_universe by (rule Un_least)
  with pushNestedTypes_names show ?thesis unfolding qc by (rule subset_trans)
qed

lemma visitItem_names:
  "itemName ` set (fst (visitItem ctx item queue gs)) \<subseteq> graphUniverse ctx queue"
proof -
  have q: "itemName ` set (fst (queue, 0::nat)) \<subseteq> graphUniverse ctx queue"
    using queue_universe by simp
  have nav_nested: "itemName ` set (fst (pushNestedTypes ctx V m d ncs
      (pushNavTargets ctx V' m' d' navs (queue, 0)))) \<subseteq> graphUniverse ctx queue"
    for V m d ncs V' m' d' navs
    by (intro pushNestedTypes_universe pushNavTargets_universe q)
  have nested_nav: "itemName ` set (fst (pushNavTargets ctx V m d navs
      (pushNestedTypes ctx V' m' d' ncs (queue, 0)))) \<subseteq> graphUniverse ctx queue"
    for V m d ncs V' m' d' navs
    by (intro pushNestedTypes_universe pushNavTargets_universe q)
  show ?thesis
  proof (cases item)
    case (EntityItem entity depth)
    show ?thesis
      unfolding EntityItem visitItem.simps Let_def
      by (simp only: fst_conv if_distrib [of fst] if_distrib [of set] if_distrib [of "image itemName"]
          queue_universe nav_nested split: if_split) simp
  next
    case (ComplexItem complexType depth parentProp)
    show ?thesis
      unfolding ComplexItem visitItem.simps Let_def
      by (simp only: fst_conv if_distrib [of fst] if_distrib [of set] if_distrib [of "image itemName"]
          queue_universe nested_nav split: if_split) simp
  qed
qed

lemma finite_graphUniverse: "finite (graphUniverse ctx queue)"
  by (simp add: graphUniverse_def)

lemma visitItem_measure:
  assumes "visitItem ctx item queue gs = (queue', gs')"
  shows "card (graphUniverse ctx queue' - gs_visited gs')
           < card (graphUniverse ctx (item # queue) - gs_visited gs) \<or>
         card (graphUniverse ctx queue' - gs_visited gs')
           = card (graphUniverse ctx (item # queue) - gs_visited gs) \<and>
         length queue' < length (item # queue)"
proof (cases "itemName item \<in> gs_visited gs")
  case True
  then have eq: "queue' = queue" "gs' = gs" using assms by (simp_all add: visitItem_seen)
  have "graphUniverse ctx (item # queue) - gs_visited gs = graphUniverse ctx queue - gs_visited gs"
    using True by (auto simp: graphUniverse_def)
  then show ?thesis using eq by simp
next
  case False
  have v: "gs_visited gs' = insert (itemName item) (gs_visited gs)"
    using visitItem_visited [OF False, of ctx queue] assms by simp
  have "itemName ` set queue' \<subseteq> graphUniverse ctx queue"
    using visitItem_names [of ctx item queue gs] assms by simp
  then have "graphUniverse ctx queue' \<subseteq> graphUniverse ctx (item # queue)"
    by (auto simp: graphUniverse_def)
  then have sub: "graphUniverse ctx queue' - gs_visited gs'
      \<subset> graphUniverse ctx (item # queue) - gs_visited gs"
    using v False by (auto simp: graphUniverse_def)
  have "finite (graphUniverse ctx (item # queue) - gs_visited gs)"
    using finite_graphUniverse by blast
  then show ?thesis
    using psubset_card_mono [OF _ sub] by blast
qed

text \<open>
  \<open>while (queue.length > 0) { const item = queue.shift()!; ... }\<close>
\<close>

function bfsLoop :: "GraphContext \<Rightarrow> QueueItem list \<Rightarrow> GraphState \<Rightarrow> GraphState" where
  "bfsLoop ctx [] gs = gs"
| "bfsLoop ctx (item # queue) gs =
     (case visitItem ctx item queue gs of (queue', gs') \<Rightarrow> bfsLoop ctx queue' gs')"
  by pat_completeness auto
termination
  apply (relation "measures [\<lambda>(ctx, queue, gs). card (graphUniverse ctx queue - gs_visited gs),
    \<lambda>(ctx, queue, gs). length queue]")
   apply simp
  subgoal premises prems for ctx item queue gs x y
    using visitItem_measure [OF prems(1) [symmetric]] by simp
  done

text \<open>
  The default order of \<open>sort\<close> compares strings by UTF-16 code units. On the encoding
  that is the order of the bytes, but for the characters from \<open>U+E000\<close> to \<open>U+FFFF\<close>,
  whose encodings start with \<open>0xEE\<close> or \<open>0xEF\<close>: as code units they come after the
  surrogates, so after every character outside the basic plane, whose encodings start
  with \<open>0xF0\<close> to \<open>0xF4\<close>.
\<close>

definition sortKey :: "char \<Rightarrow> nat" where
  "sortKey c =
     (if of_char c = (0xEE :: nat) \<or> of_char c = (0xEF :: nat) then of_char c + 256
      else of_char c)"

definition less_utf16 :: "string \<Rightarrow> string \<Rightarrow> bool" where
  "less_utf16 a b = (map sortKey a < map sortKey b)"

text \<open>\<open>[a, b].sort().join('|')\<close>: the two identifiers in string order, joined by a bar.\<close>

definition linkKey :: "string \<Rightarrow> string \<Rightarrow> string" where
  "linkKey a b = (if less_utf16 b a then b @ ''|'' @ a else a @ ''|'' @ b)"

record LinkState =
  ls_links :: "DiagramLink list"
  ls_linkSet :: "string set"

text \<open>
  Pushing a link unless its key is already in \<open>linkSet\<close>. Nodes are compared as values:
  the node list holds one node for each identifier, so two nodes are the same object
  exactly when they are equal.
\<close>

definition addLink ::
  "DiagramNode \<Rightarrow> DiagramNode \<Rightarrow> bool \<Rightarrow> bool \<Rightarrow> string \<Rightarrow> LinkState \<Rightarrow> LinkState" where
  "addLink node targetNode isCollection isNested navProperty ls =
     (if targetNode \<noteq> node
      then
        let key = linkKey (dn_id node) (dn_id targetNode)
        in if key \<notin> ls_linkSet ls
           then \<lparr> ls_links = ls_links ls @
                     [\<lparr> dl_source = node, dl_target = targetNode,
                        dl_isCollection = isCollection, dl_isNested = isNested,
                        dl_navProperty = navProperty \<rparr>],
                   ls_linkSet = insert key (ls_linkSet ls) \<rparr>
           else ls
      else ls)"

fun navLinks ::
  "(string \<times> DiagramNode) list \<Rightarrow> DiagramNode \<Rightarrow> ODataNavigationProperty list \<Rightarrow> LinkState
     \<Rightarrow> LinkState" where
  "navLinks nodeMap node [] ls = ls"
| "navLinks nodeMap node (nav # rest) ls =
     navLinks nodeMap node rest
       (case mapGet nodeMap (np_targetEntity nav) of
          Some targetNode \<Rightarrow>
            addLink node targetNode (np_isCollection nav) False (np_name nav) ls
        | None \<Rightarrow> ls)"

fun nestedLinks ::
  "(string \<times> DiagramNode) list \<Rightarrow> DiagramNode \<Rightarrow> NestedCollection list \<Rightarrow> LinkState
     \<Rightarrow> LinkState" where
  "nestedLinks nodeMap node [] ls = ls"
| "nestedLinks nodeMap node (nested # rest) ls =
     nestedLinks nodeMap node rest
       (case mapGet nodeMap (nc_typeName nested) of
          Some targetNode \<Rightarrow> addLink node targetNode True True (nc_propName nested) ls
        | None \<Rightarrow> ls)"

text \<open>
  The navigation properties and the properties of the type a node stands for
  (\<open>node.entity!\<close> or \<open>node.complexType!\<close>, which the loop above always sets).
\<close>

definition nodeNavigationProperties :: "DiagramNode \<Rightarrow> ODataNavigationProperty list" where
  "nodeNavigationProperties node =
     (case dn_kind node of
        EntityKind \<Rightarrow>
          (case dn_entity node of Some e \<Rightarrow> e_navigationProperties e | None \<Rightarrow> [])
      | ComplexKind \<Rightarrow>
          (case dn_complexType node of Some ct \<Rightarrow> ct_navigationProperties ct | None \<Rightarrow> []))"

definition nodeProperties :: "DiagramNode \<Rightarrow> ODataProperty list" where
  "nodeProperties node =
     (case dn_kind node of
        EntityKind \<Rightarrow> (case dn_entity node of Some e \<Rightarrow> e_properties e | None \<Rightarrow> [])
      | ComplexKind \<Rightarrow>
          (case dn_complexType node of Some ct \<Rightarrow> ct_properties ct | None \<Rightarrow> []))"

text \<open>The second pass, over the emitted nodes.\<close>

fun linkLoop ::
  "AppState \<Rightarrow> (string \<times> DiagramNode) list \<Rightarrow> DiagramNode list \<Rightarrow> LinkState \<Rightarrow> LinkState"
  where
  "linkLoop store nodeMap [] ls = ls"
| "linkLoop store nodeMap (node # rest) ls =
     linkLoop store nodeMap rest
       (if dn_isExpanded node \<or> dn_isRoot node
        then
          nestedLinks nodeMap node (getNestedCollections store (nodeProperties node))
            (navLinks nodeMap node (nodeNavigationProperties node) ls)
        else ls)"

record Graph =
  g_nodes :: "DiagramNode list"
  g_links :: "DiagramLink list"

text \<open>
  \<open>buildGraph\<close>. Besides its five parameters it reads the store, through
  \<open>store.isComplexTypeCollection\<close>; the store comes first here.
\<close>

definition buildGraph ::
  "AppState \<Rightarrow> ODataEntity \<Rightarrow> ODataEntity option \<Rightarrow> string set \<Rightarrow> (string \<times> ODataEntity) list
     \<Rightarrow> ODataMetadata \<Rightarrow> Graph" where
  "buildGraph store rootEntity selectedEntity expandedNodes entityMap metadata =
     (let complexTypeMap = map (\<lambda>ct. (ct_name ct, ct)) (allComplexTypes metadata);
          ctx = \<lparr> gc_rootEntity = rootEntity, gc_selectedEntity = selectedEntity,
                  gc_expandedNodes = expandedNodes, gc_entityMap = entityMap,
                  gc_complexTypeMap = complexTypeMap, gc_store = store \<rparr>;
          gs = bfsLoop ctx [EntityItem rootEntity 0]
                 \<lparr> gs_visited = {}, gs_nodes = [], gs_nodeMap = [] \<rparr>;
          ls = linkLoop store (gs_nodeMap gs) (gs_nodes gs)
                 \<lparr> ls_links = [], ls_linkSet = {} \<rparr>
      in \<lparr> g_nodes = gs_nodes gs, g_links = ls_links ls \<rparr>)"

text \<open>
  The call made by \<open>renderGraph\<close> from the state of the store, when a document is loaded
  and a diagram root is set.
\<close>

definition diagramGraph :: "AppState \<Rightarrow> Graph option" where
  "diagramGraph state =
     (case st_metadata state of
        None \<Rightarrow> None
      | Some metadata \<Rightarrow>
        (case st_diagramRootEntity state of
           None \<Rightarrow> None
         | Some rootEntity \<Rightarrow>
             Some (buildGraph state rootEntity (st_selectedEntity state)
                     (st_diagramExpandedNodes state)
                     (map (\<lambda>e. (e_name e, e)) (allEntities metadata)) metadata)))"

section \<open>The layout\<close>

text \<open>
  \<open>layoutNodes\<close> writes coordinates into the nodes of the array it is given. A node is
  referred to by its index in the array; \<open>byDepth\<close> maps a depth to the indices of its
  level, in the order the depths were first met.
\<close>

fun groupByDepth ::
  "DiagramNode list \<Rightarrow> nat \<Rightarrow> (nat \<times> nat list) list \<Rightarrow> (nat \<times> nat list) list" where
  "groupByDepth [] i byDepth = byDepth"
| "groupByDepth (node # rest) i byDepth =
     groupByDepth rest (i + 1)
       (case map_of byDepth (dn_depth node) of
          None \<Rightarrow> AList.update (dn_depth node) [i] byDepth
        | Some level \<Rightarrow> AList.update (dn_depth node) (level @ [i]) byDepth)"

text \<open>\<open>levelNodes.reduce((sum, n) => sum + n.width + NODE_SPACING, -NODE_SPACING)\<close>\<close>

definition totalWidth :: "DiagramNode list \<Rightarrow> nat list \<Rightarrow> rat" where
  "totalWidth nodes levelNodes =
     foldl (\<lambda>sum i. sum + dn_width (nodes ! i) + NODE_SPACING) (- NODE_SPACING) levelNodes"

text \<open>The inner loop: the nodes of one level, left to right from \<open>x\<close>.\<close>

fun placeLevel :: "rat \<Rightarrow> nat list \<Rightarrow> rat \<Rightarrow> DiagramNode list \<Rightarrow> DiagramNode list" where
  "placeLevel y [] x nodes = nodes"
| "placeLevel y (i # rest) x nodes =
     placeLevel y rest (x + dn_width (nodes ! i) + NODE_SPACING)
       (nodes[i := (nodes ! i) \<lparr> dn_x := x + dn_width (nodes ! i) / 2, dn_y := y \<rparr>])"

text \<open>The outer loop over the levels.\<close>

fun layoutLevels :: "(nat \<times> nat list) list \<Rightarrow> DiagramNode list \<Rightarrow> DiagramNode list" where
  "layoutLevels [] nodes = nodes"
| "layoutLevels ((depth, levelNodes) # rest) nodes =
     layoutLevels rest
       (placeLevel (of_nat depth * LEVEL_HEIGHT) levelNodes
          (- totalWidth nodes levelNodes / 2) nodes)"

definition layoutNodes :: "DiagramNode list \<Rightarrow> DiagramNode list" where
  "layoutNodes nodes = layoutLevels (groupByDepth nodes 0 []) nodes"

text \<open>The nodes as \<open>renderGraph\<close> draws them: built, then laid out.\<close>

definition laidOut ::
  "AppState \<Rightarrow> ODataEntity \<Rightarrow> ODataEntity option \<Rightarrow> string set \<Rightarrow> (string \<times> ODataEntity) list
     \<Rightarrow> ODataMetadata \<Rightarrow> DiagramNode list" where
  "laidOut store rootEntity selectedEntity expandedNodes entityMap metadata =
     layoutNodes (g_nodes (buildGraph store rootEntity selectedEntity expandedNodes entityMap
       metadata))"

section \<open>The relationship extractor\<close>

record Relationship =
  r_sourceEntity :: string
  r_targetEntity :: string
  r_navProp :: string
  r_isCollection :: bool

text \<open>The inner loop over the navigation properties of one entity.\<close>

fun navPropLoop ::
  "string set \<Rightarrow> ODataEntity \<Rightarrow> ODataNavigationProperty list \<Rightarrow> Relationship list
     \<Rightarrow> Relationship list" where
  "navPropLoop entityNames entity [] relationships = relationships"
| "navPropLoop entityNames entity (navProp # rest) relationships =
     navPropLoop entityNames entity rest
       (if np_targetEntity navProp \<in> entityNames
        then relationships @
          [\<lparr> r_sourceEntity = e_name entity, r_targetEntity = np_targetEntity navProp,
             r_navProp = np_name navProp, r_isCollection = np_isCollection navProp \<rparr>]
        else relationships)"

text \<open>The outer loop over the entities.\<close>

fun entityLoop ::
  "string set \<Rightarrow> ODataEntity list \<Rightarrow> Relationship list \<Rightarrow> Relationship list" where
  "entityLoop entityNames [] relationships = relationships"
| "entityLoop entityNames (entity # rest) relationships =
     entityLoop entityNames rest
       (navPropLoop entityNames entity (e_navigationProperties entity) relationships)"

definition extractRelationships :: "ODataMetadata \<Rightarrow> Relationship list" where
  "extractRelationships metadata =
     (let entityNames = set (map e_name (allEntities metadata))
      in entityLoop entityNames (allEntities metadata) [])"

section \<open>Specification-side notions\<close>

text \<open>
  The last dot-separated segment of a string, as the specification words it: the longest
  suffix that holds no dot.
\<close>

definition last_dot_segment :: "string \<Rightarrow> string" where
  "last_dot_segment s = rev (takeWhile (\<lambda>c. c \<noteq> CHR ''.'') (rev s))"

text \<open>The raw type string of a navigation-property element.\<close>

definition rawType :: "node \<Rightarrow> string" where
  "rawType navPropElement = or_default (getAttribute navPropElement ''Type'') []"

text \<open>The directed edge one navigation property of an entity stands for.\<close>

definition edgeOf :: "ODataEntity \<Rightarrow> ODataNavigationProperty \<Rightarrow> Relationship" where
  "edgeOf entity navProp =
     \<lparr> r_sourceEntity = e_name entity, r_targetEntity = np_targetEntity navProp,
       r_navProp = np_name navProp, r_isCollection = np_isCollection navProp \<rparr>"

definition resolves :: "ODataMetadata \<Rightarrow> ODataNavigationProperty \<Rightarrow> bool" where
  "resolves metadata navProp = (np_targetEntity navProp \<in> e_name ` set (allEntities metadata))"

text \<open>
  The query is a case-insensitive substring of a field: lower-cased, it occurs in the
  lower-cased field.
\<close>

definition ci_substring :: "string \<Rightarrow> string \<Rightarrow> bool" where
  "ci_substring q field = includes_str (toLowerCase field) (toLowerCase q)"








section \<open>Sample inputs\<close>

definition attr :: "string \<Rightarrow> string \<Rightarrow> attribute" where
  "attr name v =
     \<lparr> attr_namespaceURI = None, attr_prefix = None, attr_localName = name, attr_value = v \<rparr>"

definition navOrders :: node where
  "navOrders = Element (Some EDM_NS) None ''NavigationProperty''
     [attr ''Name'' ''Orders'', attr ''Type'' ''Collection(NorthwindModel.Order)'',
      attr ''Partner'' ''Customer''] []"

definition navCustomer :: node where
  "navCustomer = Element (Some EDM_NS) None ''NavigationProperty''
     [attr ''Name'' ''Customer'', attr ''Type'' ''NorthwindModel.Customer'',
      attr ''Partner'' ''Orders''] []"

definition navEmptyCollection :: node where
  "navEmptyCollection = Element (Some EDM_NS) None ''NavigationProperty''
     [attr ''Name'' ''Items'', attr ''Type'' ''Collection()''] []"

definition navTrailing :: node where
  "navTrailing = Element (Some EDM_NS) None ''NavigationProperty''
     [attr ''Name'' ''Parts'', attr ''Type'' ''Collection(A.B)x''] []"

definition navUnclosed :: node where
  "navUnclosed = Element (Some EDM_NS) None ''NavigationProperty''
     [attr ''Name'' ''Entries'', attr ''Type'' ''Collection(NS.X''] []"

definition customerEntity :: ODataEntity where
  "customerEntity =
     \<lparr> e_name = ''Customer'', e_fullName = ''NorthwindModel.Customer'',
       e_namespace = ''NorthwindModel'',
       e_properties =
         [\<lparr> p_name = ''CustomerID'', p_type = ''Edm.String'', p_nullable = False,
             p_isKey = True \<rparr>],
       e_navigationProperties =
         [\<lparr> np_name = ''Orders'', np_type = ''Collection(NorthwindModel.Order)'',
             np_targetEntity = ''Order'', np_isCollection = True,
             np_partner = Some ''Customer'', np_referentialConstraints = None \<rparr>],
       e_keyProperties = [''CustomerID''], e_baseType = None \<rparr>"

definition orderEntity :: ODataEntity where
  "orderEntity =
     \<lparr> e_name = ''Order'', e_fullName = ''NorthwindModel.Order'',
       e_namespace = ''NorthwindModel'',
       e_properties =
         [\<lparr> p_name = ''OrderID'', p_type = ''Edm.Int32'', p_nullable = False,
             p_isKey = True \<rparr>],
       e_navigationProperties =
         [\<lparr> np_name = ''Customer'', np_type = ''NorthwindModel.Customer'',
             np_targetEntity = ''Customer'', np_isCollection = False,
             np_partner = Some ''Orders'', np_referentialConstraints = None \<rparr>,
          \<lparr> np_name = ''Employee'', np_type = ''NorthwindModel.Employee'',
             np_targetEntity = ''Employee'', np_isCollection = False,
             np_partner = Some ''Orders'', np_referentialConstraints = None \<rparr>],
       e_keyProperties = [''OrderID''], e_baseType = None \<rparr>"

text \<open>Two entities with reciprocal navigation properties, and one dangling target.\<close>

definition sampleMetadata :: ODataMetadata where
  "sampleMetadata =
     \<lparr> version = ''4.0'',
       schemas =
         [\<lparr> s_namespace = ''NorthwindModel'', s_alias = None,
             s_entities = [customerEntity, orderEntity], s_complexTypes = [],
             s_enumTypes = [] \<rparr>],
       allEntities = [customerEntity, orderEntity], allComplexTypes = [],
       allEnumTypes = [] \<rparr>"

text \<open>The element tree of a document that declares these two entities.\<close>

definition edm :: "string \<Rightarrow> attribute list \<Rightarrow> node list \<Rightarrow> node" where
  "edm name as cs = Element (Some EDM_NS) None name as cs"

definition sampleDocument :: node where
  "sampleDocument =
     Element (Some EDMX_NS) (Some ''edmx'') ''Edmx'' [attr ''Version'' ''4.0'']
       [Element (Some EDMX_NS) (Some ''edmx'') ''DataServices'' []
          [edm ''Schema'' [attr ''Namespace'' ''NorthwindModel'']
             [edm ''EntityType'' [attr ''Name'' ''Customer'']
                [edm ''Key'' [] [edm ''PropertyRef'' [attr ''Name'' ''CustomerID''] []],
                 edm ''Property'' [attr ''Name'' ''CustomerID'', attr ''Type'' ''Edm.String'',
                    attr ''Nullable'' ''false'', attr ''MaxLength'' ''5''] [],
                 edm ''NavigationProperty'' [attr ''Name'' ''Orders'',
                    attr ''Type'' ''Collection(NorthwindModel.Order)'',
                    attr ''Partner'' ''Customer''] []],
              edm ''EntityType'' [attr ''Name'' ''Order'']
                [edm ''Key'' [] [edm ''PropertyRef'' [attr ''Name'' ''OrderID''] []],
                 edm ''Property'' [attr ''Name'' ''OrderID'', attr ''Type'' ''Edm.Int32'',
                    attr ''Nullable'' ''false''] [],
                 edm ''NavigationProperty'' [attr ''Name'' ''Customer'',
                    attr ''Type'' ''NorthwindModel.Customer'', attr ''Partner'' ''Orders''] [],
                 edm ''NavigationProperty'' [attr ''Name'' ''Employee'',
                    attr ''Type'' ''NorthwindModel.Employee'', attr ''Partner'' ''Orders''] []]]]]"

text \<open>A store with the sample document loaded, a search typed and a complex type opened.\<close>

definition loadedState :: AppState where
  "loadedState =
     initialState \<lparr> st_metadata := Some sampleMetadata, st_searchQuery := ''order'',
       st_navigationPath :=
         [\<lparr> nps_kind = ComplexKind, nps_typeName = ''c_Address'',
            nps_propertyName = ''Addresses'', nps_displayName = ''Address'' \<rparr>] \<rparr>"

definition fooDocument :: parse_outcome where
  "fooDocument = WellFormed (Element None None ''Foo'' [] [])"

text \<open>
  A well-formed document with an \<open>Edmx\<close> root and a \<open>DataServices\<close> element, one of whose
  elements happens to be named \<open>parsererror\<close>.
\<close>

definition edmxWithParsererror :: node where
  "edmxWithParsererror =
     Element (Some EDMX_NS) (Some ''edmx'') ''Edmx'' [attr ''Version'' ''4.0'']
       [Element (Some EDMX_NS) (Some ''edmx'') ''DataServices'' []
          [Element (Some EDM_NS) None ''Schema'' [attr ''Namespace'' ''Logs'']
             [Element (Some EDM_NS) None ''parsererror'' [] [Text ''x'']]]]"

definition managerEntity :: ODataEntity where
  "managerEntity =
     \<lparr> e_name = ''Manager'', e_fullName = ''HR.Manager'', e_namespace = ''HR'',
       e_properties =
         [\<lparr> p_name = ''Level'', p_type = ''Edm.Int16'', p_nullable = True,
             p_isKey = False \<rparr>],
       e_navigationProperties = [], e_keyProperties = [],
       e_baseType = Some ''HR.Employee'' \<rparr>"

text \<open>A store holding one derived entity, searched for the name of its base type.\<close>

definition derivedState :: AppState where
  "derivedState =
     initialState
       \<lparr> st_metadata :=
           Some \<lparr> version = ''4.0'',
                  schemas =
                    [\<lparr> s_namespace = ''HR'', s_alias = None, s_entities = [managerEntity],
                        s_complexTypes = [], s_enumTypes = [] \<rparr>],
                  allEntities = [managerEntity], allComplexTypes = [],
                  allEnumTypes = [] \<rparr>,
         st_searchQuery := ''employee'' \<rparr>"

text \<open>The store after selecting \<open>Order\<close> in a diagram rooted at \<open>Customer\<close>, both expanded.\<close>

definition diagramState :: AppState where
  "diagramState =
     initialState \<lparr> st_metadata := Some sampleMetadata,
       st_selectedEntity := Some orderEntity, st_diagramRootEntity := Some customerEntity,
       st_diagramExpandedNodes := {''Customer'', ''Order''} \<rparr>"

definition sampleEntityMap :: "(string \<times> ODataEntity) list" where
  "sampleEntityMap = map (\<lambda>e. (e_name e, e)) (allEntities sampleMetadata)"

definition employeeEntity :: ODataEntity where
  "employeeEntity =
     \<lparr> e_name = ''Employee'', e_fullName = ''NorthwindModel.Employee'',
       e_namespace = ''NorthwindModel'',
       e_properties =
         [\<lparr> p_name = ''EmployeeID'', p_type = ''Edm.Int32'', p_nullable = False,
             p_isKey = True \<rparr>],
       e_navigationProperties =
         [\<lparr> np_name = ''Orders'', np_type = ''Collection(NorthwindModel.Order)'',
             np_targetEntity = ''Order'', np_isCollection = True,
             np_partner = Some ''Employee'', np_referentialConstraints = None \<rparr>],
       e_keyProperties = [''EmployeeID''], e_baseType = None \<rparr>"

text \<open>A document in which \<open>Order\<close> points at two other entities.\<close>

definition staffMetadata :: ODataMetadata where
  "staffMetadata =
     \<lparr> version = ''4.0'',
       schemas =
         [\<lparr> s_namespace = ''NorthwindModel'', s_alias = None,
             s_entities = [customerEntity, orderEntity, employeeEntity], s_complexTypes = [],
             s_enumTypes = [] \<rparr>],
       allEntities = [customerEntity, orderEntity, employeeEntity], allComplexTypes = [],
       allEnumTypes = [] \<rparr>"

definition staffState :: AppState where
  "staffState =
     initialState \<lparr> st_metadata := Some staffMetadata,
       st_selectedEntity := Some orderEntity, st_diagramRootEntity := Some orderEntity,
       st_diagramExpandedNodes := {''Order''} \<rparr>"

definition staffEntityMap :: "(string \<times> ODataEntity) list" where
  "staffEntityMap = map (\<lambda>e. (e_name e, e)) (allEntities staffMetadata)"

section \<open>Invariants used in the proofs\<close>

text \<open>What holds of the loop state after every turn.\<close>

definition graphInv :: "GraphContext \<Rightarrow> GraphState \<Rightarrow> bool" where
  "graphInv ctx gs \<longleftrightarrow>
     distinct (map dn_id (gs_nodes gs)) \<and>
     dn_id ` set (gs_nodes gs) \<subseteq> gs_visited gs \<and>
     (\<forall>n \<in> set (gs_nodes gs).
        dn_isExpanded n = (dn_id n \<in> gc_expandedNodes ctx) \<and>
        (dn_isRoot n \<longrightarrow> dn_id n = e_name (gc_rootEntity ctx)))"

definition keyOf :: "DiagramLink \<Rightarrow> string" where
  "keyOf l = linkKey (dn_id (dl_source l)) (dn_id (dl_target l))"

definition linkInv :: "(DiagramNode \<Rightarrow> bool) \<Rightarrow> LinkState \<Rightarrow> bool" where
  "linkInv Q ls \<longleftrightarrow>
     distinct (map keyOf (ls_links ls)) \<and> keyOf ` set (ls_links ls) \<subseteq> ls_linkSet ls \<and>
     (\<forall>l \<in> set (ls_links ls). Q (dl_source l))"

text \<open>A node with its coordinates cleared: what the layout leaves untouched.\<close>

definition unplaced :: "DiagramNode \<Rightarrow> DiagramNode" where
  "unplaced n = n \<lparr> dn_x := 0, dn_y := 0 \<rparr>"

text \<open>
  What holds of \<open>byDepth\<close> once the nodes before index \<open>i\<close> are grouped: the depths are
  distinct keys, each level lists, in order, the indices of its depth, and every depth
  met has a level.
\<close>

definition bucketsOk :: "DiagramNode list \<Rightarrow> nat \<Rightarrow> (nat \<times> nat list) list \<Rightarrow> bool" where
  "bucketsOk ns i acc \<longleftrightarrow>
     distinct (map fst acc) \<and>
     (\<forall>d idxs. map_of acc d = Some idxs \<longrightarrow>
        idxs = filter (\<lambda>k. dn_depth (ns ! k) = d) [0..<i]) \<and>
     (\<forall>k < i. map_of acc (dn_depth (ns ! k)) \<noteq> None)"

section \<open>Facts about the string helpers\<close>

lemma split_nonempty: "split sep s \<noteq> []"
  by (induction s) (auto simp: Let_def)

lemma split_no_sep: "sep \<notin> set s \<Longrightarrow> split sep s = [s]"
  by (induction s) (auto simp: Let_def)

lemma split_tl_empty: "tl (split sep s) = [] \<longleftrightarrow> sep \<notin> set s"
proof (induction s)
  case Nil
  then show ?case by simp
next
  case (Cons c cs)
  then show ?case using split_nonempty [of sep cs] by (auto simp: Let_def)
qed

lemma last_dot_segment_no_dot:
  assumes "CHR ''.'' \<notin> set s"
  shows "last_dot_segment s = s"
proof -
  have "takeWhile (\<lambda>c. c \<noteq> CHR ''.'') (rev s) = rev s"
    using assms by (auto simp: takeWhile_eq_all_conv)
  then show ?thesis unfolding last_dot_segment_def by (simp only: rev_rev_ident)
qed

lemma last_dot_segment_Cons:
  "last_dot_segment (c # cs) =
     (if CHR ''.'' \<in> set cs then last_dot_segment cs
      else if c = CHR ''.'' then cs else c # cs)"
proof (cases "CHR ''.'' \<in> set cs")
  case True
  then show ?thesis by (auto simp: last_dot_segment_def takeWhile_append)
next
  case False
  then have "takeWhile (\<lambda>c. c \<noteq> CHR ''.'') (rev cs) = rev cs"
    by (auto simp: takeWhile_eq_all_conv)
  then have "takeWhile (\<lambda>c. c \<noteq> CHR ''.'') (rev cs @ [c]) =
      rev cs @ takeWhile (\<lambda>c. c \<noteq> CHR ''.'') [c]"
    using False by (simp only: takeWhile_append) auto
  then show ?thesis using False unfolding last_dot_segment_def by auto
qed

lemma last_split: "last (split (CHR ''.'') s) = last_dot_segment s"
proof (induction s)
  case Nil
  then show ?case by (simp add: last_dot_segment_def)
next
  case (Cons c cs)
  show ?case
  proof (cases "CHR ''.'' \<in> set cs")
    case True
    then have "tl (split (CHR ''.'') cs) \<noteq> []" by (simp add: split_tl_empty)
    then show ?thesis using Cons True split_nonempty [of "CHR ''.''" cs]
      by (auto simp: Let_def last_dot_segment_Cons last_tl)
  next
    case False
    then show ?thesis
      by (simp add: split_no_sep last_dot_segment_Cons last_dot_segment_no_dot)
  qed
qed

lemma dotRun_prefix: "\<exists>r. s = dotRun s @ r"
  by (induction s) auto

lemma set_dotRun: "set (dotRun s) \<subseteq> set s"
  by (induction s) auto

lemma startsLineTerminator_paren:
  assumes "\<not> startsLineTerminator (c # cs)"
  shows "\<not> startsLineTerminator (c # cs @ CHR '')'' # Y)"
proof (cases cs)
  case Nil
  then show ?thesis using assms by (auto simp: startsLineTerminator_def startsWith_def)
next
  case (Cons d ds)
  then show ?thesis using assms
    by (cases ds) (auto simp: startsLineTerminator_def startsWith_def)
qed

lemma dotRun_paren:
  "dotRun X = X \<Longrightarrow> dotRun (X @ CHR '')'' # Y) = X @ CHR '')'' # dotRun Y"
proof (induction X)
  case Nil
  then show ?case by (simp add: startsLineTerminator_def startsWith_def)
next
  case (Cons c cs)
  from Cons.prems have nolt: "\<not> startsLineTerminator (c # cs)" and rest: "dotRun cs = cs"
    by (auto split: if_splits)
  show ?case using startsLineTerminator_paren [OF nolt, of Y] Cons.IH [OF rest] by simp
qed

lemma greedy_group_closed:
  assumes "X \<noteq> []" "dotRun X = X" "CHR '')'' \<notin> set Y"
  shows "greedy_group (X @ '')'' @ Y) = Some X"
proof -
  have run: "dotRun (X @ '')'' @ Y) = X @ CHR '')'' # dotRun Y"
    using dotRun_paren [OF assms(2), of Y] by simp
  have "CHR '')'' \<notin> set (dotRun Y)" using assms(3) set_dotRun [of Y] by blast
  then have "\<And>x. x \<in> set (rev (dotRun Y)) \<Longrightarrow> x \<noteq> CHR '')''" by auto
  then have "dropWhile (\<lambda>c. c \<noteq> CHR '')'') (rev (dotRun Y) @ CHR '')'' # rev X) =
      dropWhile (\<lambda>c. c \<noteq> CHR '')'') (CHR '')'' # rev X)"
    by (rule dropWhile_append2)
  then show ?thesis using assms(1) run by (simp add: greedy_group_def)
qed

lemma match_Collection_closed:
  assumes "X \<noteq> []" "dotRun X = X" "CHR '')'' \<notin> set Y"
  shows "match_Collection (''Collection('' @ X @ '')'' @ Y) = Some X"
  using greedy_group_closed [OF assms] by (simp add: startsWith_def)

text \<open>
  What a match means: the string holds \<open>Collection(\<close>, then the group, which is not empty
  and holds no line terminator, then a closing parenthesis.
\<close>

lemma dotRun_append_closed: "dotRun s = g @ r \<Longrightarrow> dotRun g = g"
proof (induction g arbitrary: s)
  case Nil
  then show ?case by simp
next
  case (Cons c cs)
  then obtain t where s: "s = c # t" and nolt: "\<not> startsLineTerminator (c # t)"
    and rest: "dotRun t = cs @ r"
    by (cases s) (auto split: if_splits)
  obtain u where t: "t = dotRun t @ u" using dotRun_prefix [of t] by blast
  have "c # t = (c # cs) @ (r @ u)" using t rest by simp
  then have "\<not> startsLineTerminator (c # cs)"
    using nolt by (auto simp: startsLineTerminator_def startsWith_def take_Cons' split: if_splits)
  then show ?case using Cons.IH [OF rest] by simp
qed

lemma greedy_group_SomeD:
  assumes "greedy_group rest = Some g"
  shows "\<exists>post. rest = g @ '')'' @ post \<and> g \<noteq> [] \<and> dotRun g = g"
proof -
  define bk where "bk = dropWhile (\<lambda>c. c \<noteq> CHR '')'') (rev (dotRun rest))"
  from assms have bk: "bk \<noteq> []" "tl bk \<noteq> []" and g: "g = rev (tl bk)"
    by (auto simp: greedy_group_def Let_def bk_def split: if_splits)
  have "hd bk = CHR '')''"
    using bk(1) hd_dropWhile [of "\<lambda>c. c \<noteq> CHR '')''" "rev (dotRun rest)"]
    by (simp add: bk_def)
  then have shape: "bk = CHR '')'' # tl bk" using bk(1) by (cases bk) auto
  have "rev (dotRun rest) = takeWhile (\<lambda>c. c \<noteq> CHR '')'') (rev (dotRun rest)) @ bk"
    by (simp add: bk_def)
  then have "rev (rev (dotRun rest)) =
      rev (takeWhile (\<lambda>c. c \<noteq> CHR '')'') (rev (dotRun rest)) @ CHR '')'' # tl bk)"
    using shape by simp
  then have run: "dotRun rest =
      g @ '')'' @ rev (takeWhile (\<lambda>c. c \<noteq> CHR '')'') (rev (dotRun rest)))"
    by (simp add: g)
  obtain u where "rest = dotRun rest @ u" using dotRun_prefix [of rest] by blast
  then have "rest = g @ '')'' @ (rev (takeWhile (\<lambda>c. c \<noteq> CHR '')'') (rev (dotRun rest))) @ u)"
    using run by (metis append.assoc)
  moreover have "g \<noteq> []" using bk(2) g by simp
  moreover have "dotRun g = g" using dotRun_append_closed [OF run] .
  ultimately show ?thesis by blast
qed

lemma match_Collection_SomeD:
  "match_Collection s = Some g \<Longrightarrow>
     \<exists>pre post. s = pre @ ''Collection('' @ g @ '')'' @ post \<and> g \<noteq> [] \<and> dotRun g = g"
proof (induction s)
  case Nil
  then show ?case by simp
next
  case (Cons c cs)
  show ?case
  proof (cases "startsWith (c # cs) ''Collection('' \<and>
      greedy_group (drop 11 (c # cs)) = Some g")
    case True
    then obtain post where post: "drop 11 (c # cs) = g @ '')'' @ post" "g \<noteq> []" "dotRun g = g"
      using greedy_group_SomeD by blast
    have whole: "take 11 (c # cs) @ drop 11 (c # cs) = c # cs" by (rule append_take_drop_id)
    have "take (length ''Collection('') (c # cs) = ''Collection(''"
      using True unfolding startsWith_def by blast
    moreover have "length ''Collection('' = 11" by simp
    ultimately have pre: "take 11 (c # cs) = ''Collection(''" by (simp only:)
    have "c # cs = [] @ ''Collection('' @ g @ '')'' @ post"
      using whole unfolding pre post(1) by simp
    then show ?thesis using post(2,3) by blast
  next
    case False
    then have "match_Collection cs = Some g"
      using Cons.prems by (auto split: if_splits option.splits)
    then obtain pre post where "cs = pre @ ''Collection('' @ g @ '')'' @ post" "g \<noteq> []"
      "dotRun g = g"
      using Cons.IH by blast
    then have "c # cs = (c # pre) @ ''Collection('' @ g @ '')'' @ post \<and> g \<noteq> [] \<and> dotRun g = g"
      by simp
    then show ?thesis by blast
  qed
qed

lemma match_Collection_paren:
  assumes "match_Collection s = Some g"
  shows "CHR '')'' \<in> set (drop 12 s)"
proof -
  obtain pre post where s: "s = pre @ ''Collection('' @ g @ '')'' @ post" and g: "g \<noteq> []"
    using match_Collection_SomeD [OF assms] by blast
  have s': "s = (pre @ ''Collection('' @ g) @ (CHR '')'' # post)" using s by simp
  have "12 \<le> length (pre @ ''Collection('' @ g)" using g by (cases g) auto
  then have "drop 12 s = drop 12 (pre @ ''Collection('' @ g) @ (CHR '')'' # post)"
    unfolding s' by (simp only: drop_append) simp
  then show ?thesis by simp
qed

lemma match_Collection_unclosed:
  assumes "CHR '')'' \<notin> set X"
  shows "match_Collection (''Collection('' @ X) = None"
proof (cases "match_Collection (''Collection('' @ X)")
  case None
  then show ?thesis .
next
  case (Some g)
  have "set (drop 12 (''Collection('' @ X)) \<subseteq> set X"
    using set_drop_subset [of 1 X] by simp
  then show ?thesis using match_Collection_paren [OF Some] assms by blast
qed

lemma last_dot_segment_append:
  assumes "CHR ''.'' \<in> set X"
  shows "last_dot_segment (P @ X) = last_dot_segment X"
proof -
  have "takeWhile (\<lambda>c. c \<noteq> CHR ''.'') (rev X @ rev P) =
      takeWhile (\<lambda>c. c \<noteq> CHR ''.'') (rev X)"
    by (rule takeWhile_append1 [of "CHR ''.''"]) (use assms in auto)
  then show ?thesis unfolding last_dot_segment_def by simp
qed

section \<open>Navigation-property targets\<close>

text \<open>
  Claim C4, as amended. For every navigation-property element: the parsed \<open>type\<close> is the
  raw type string unchanged, and \<open>isCollection\<close> holds exactly when the raw type begins
  with \<open>Collection(\<close>. When the raw type is \<open>Collection(\<close>, then \<open>X\<close>, then a closing
  parenthesis, then \<open>Y\<close>, with \<open>X\<close> non-empty and free of line terminators and no closing
  parenthesis in \<open>Y\<close>, \<open>targetEntity\<close> is the last dot-separated segment of \<open>X\<close>. When
  the raw type does not begin with \<open>Collection(\<close>, \<open>targetEntity\<close> is the last
  dot-separated segment of the raw type. When the raw type is \<open>Collection(\<close> followed by
  an \<open>X\<close> without closing parenthesis, \<open>targetEntity\<close> is the last dot-separated segment
  of \<open>X\<close> if \<open>X\<close> holds a dot, and the whole raw type if it holds none. And whenever the
  raw type begins with \<open>Collection(\<close> and the pattern matches nowhere in it,
  \<open>targetEntity\<close> is the last dot-separated segment of the whole raw type.
\<close>

theorem parseNavigationProperty_target:
  "np_type (parseNavigationProperty e) = rawType e \<and>
   np_isCollection (parseNavigationProperty e) = startsWith (rawType e) ''Collection('' \<and>
   (\<forall>X Y. rawType e = ''Collection('' @ X @ '')'' @ Y \<and> X \<noteq> [] \<and> dotRun X = X \<and>
          CHR '')'' \<notin> set Y \<longrightarrow>
        np_targetEntity (parseNavigationProperty e) = last_dot_segment X) \<and>
   (\<not> startsWith (rawType e) ''Collection('' \<longrightarrow>
        np_targetEntity (parseNavigationProperty e) = last_dot_segment (rawType e)) \<and>
   (\<forall>X. rawType e = ''Collection('' @ X \<and> CHR '')'' \<notin> set X \<longrightarrow>
        np_targetEntity (parseNavigationProperty e) =
          (if CHR ''.'' \<in> set X then last_dot_segment X else rawType e)) \<and>
   (startsWith (rawType e) ''Collection('' \<and> match_Collection (rawType e) = None \<longrightarrow>
        np_targetEntity (parseNavigationProperty e) = last_dot_segment (rawType e))"
proof -
  have fallback: "np_targetEntity (parseNavigationProperty e) = last_dot_segment (rawType e)"
    if "startsWith (rawType e) ''Collection(''" "match_Collection (rawType e) = None"
    using that by (simp add: parseNavigationProperty_def rawType_def Let_def last_split)
  have closed: "np_targetEntity (parseNavigationProperty e) = last_dot_segment X"
    if "rawType e = ''Collection('' @ X @ '')'' @ Y" "X \<noteq> []" "dotRun X = X"
      "CHR '')'' \<notin> set Y" for X Y
  proof -
    have "startsWith (rawType e) ''Collection(''"
      using that(1) by (simp add: startsWith_def)
    moreover have "match_Collection (rawType e) = Some X"
      using match_Collection_closed [OF that(2,3,4)] that(1) by simp
    ultimately show ?thesis
      by (simp add: parseNavigationProperty_def rawType_def Let_def last_split)
  qed
  have plain: "np_targetEntity (parseNavigationProperty e) = last_dot_segment (rawType e)"
    if "\<not> startsWith (rawType e) ''Collection(''"
    using that by (simp add: parseNavigationProperty_def rawType_def Let_def last_split)
  have unclosed: "np_targetEntity (parseNavigationProperty e) =
      (if CHR ''.'' \<in> set X then last_dot_segment X else rawType e)"
    if raw: "rawType e = ''Collection('' @ X" and noparen: "CHR '')'' \<notin> set X" for X
  proof -
    have "startsWith (rawType e) ''Collection(''"
      using raw by (simp add: startsWith_def)
    moreover have "match_Collection (rawType e) = None"
      using match_Collection_unclosed [OF noparen] raw by simp
    ultimately have target:
      "np_targetEntity (parseNavigationProperty e) = last_dot_segment (''Collection('' @ X)"
      using fallback raw by simp
    show ?thesis
    proof (cases "CHR ''.'' \<in> set X")
      case True
      then show ?thesis using target last_dot_segment_append [of X "''Collection(''"] by simp
    next
      case False
      then have "CHR ''.'' \<notin> set (''Collection('' @ X)" by simp
      then show ?thesis
        using target False raw last_dot_segment_no_dot [of "''Collection('' @ X"] by simp
    qed
  qed
  have "np_type (parseNavigationProperty e) = rawType e"
    by (simp add: parseNavigationProperty_def rawType_def Let_def)
  moreover have
    "np_isCollection (parseNavigationProperty e) = startsWith (rawType e) ''Collection(''"
    by (simp add: parseNavigationProperty_def rawType_def Let_def)
  ultimately show ?thesis using closed plain unclosed fallback by blast
qed

lemma rawType_navOrders:
  "rawType navOrders = ''Collection('' @ ''NorthwindModel.Order'' @ '')'' @ []"
  by (simp add: rawType_def navOrders_def attr_def getAttribute_def qualifiedName_def
      or_default_def)

lemma rawType_navCustomer: "rawType navCustomer = ''NorthwindModel.Customer''"
  by (simp add: rawType_def navCustomer_def attr_def getAttribute_def qualifiedName_def
      or_default_def)

lemma rawType_navTrailing: "rawType navTrailing = ''Collection('' @ ''A.B'' @ '')'' @ ''x''"
  by (simp add: rawType_def navTrailing_def attr_def getAttribute_def qualifiedName_def
      or_default_def)

lemma rawType_navUnclosed: "rawType navUnclosed = ''Collection('' @ ''NS.X''"
  by (simp add: rawType_def navUnclosed_def attr_def getAttribute_def qualifiedName_def
      or_default_def)

lemma rawType_navEmptyCollection: "rawType navEmptyCollection = ''Collection()''"
  by (simp add: rawType_def navEmptyCollection_def attr_def getAttribute_def qualifiedName_def
      or_default_def)

theorem parseNavigationProperty_target_witness:
  "np_type (parseNavigationProperty navOrders) = ''Collection(NorthwindModel.Order)'' \<and>
   np_isCollection (parseNavigationProperty navOrders) \<and>
   np_targetEntity (parseNavigationProperty navOrders) = ''Order'' \<and>
   np_type (parseNavigationProperty navCustomer) = ''NorthwindModel.Customer'' \<and>
   \<not> np_isCollection (parseNavigationProperty navCustomer) \<and>
   np_targetEntity (parseNavigationProperty navCustomer) = ''Customer'' \<and>
   np_type (parseNavigationProperty navTrailing) = ''Collection(A.B)x'' \<and>
   np_targetEntity (parseNavigationProperty navTrailing) = ''B'' \<and>
   np_type (parseNavigationProperty navUnclosed) = ''Collection(NS.X'' \<and>
   np_targetEntity (parseNavigationProperty navUnclosed) = ''X'' \<and>
   np_isCollection (parseNavigationProperty navEmptyCollection) \<and>
   np_targetEntity (parseNavigationProperty navEmptyCollection) = ''Collection()''"
proof -
  have orders: "''NorthwindModel.Order'' \<noteq> [] \<and>
      dotRun ''NorthwindModel.Order'' = ''NorthwindModel.Order'' \<and> CHR '')'' \<notin> set []"
    by (simp add: startsLineTerminator_def startsWith_def)
  have trailing: "''A.B'' \<noteq> [] \<and> dotRun ''A.B'' = ''A.B'' \<and> CHR '')'' \<notin> set ''x''"
    by (simp add: startsLineTerminator_def startsWith_def)
  have plain: "\<not> startsWith (rawType navCustomer) ''Collection(''"
    by (simp add: rawType_navCustomer startsWith_def)
  have unclosed: "CHR '')'' \<notin> set ''NS.X'' \<and> CHR ''.'' \<in> set ''NS.X''"
    by simp
  have empty: "startsWith (rawType navEmptyCollection) ''Collection('' \<and>
      match_Collection (rawType navEmptyCollection) = None"
    by (simp add: rawType_navEmptyCollection startsWith_def greedy_group_def
        startsLineTerminator_def)
  have seg: "last_dot_segment ''NorthwindModel.Order'' = ''Order''"
    "last_dot_segment ''NorthwindModel.Customer'' = ''Customer''"
    "last_dot_segment ''A.B'' = ''B''" "last_dot_segment ''NS.X'' = ''X''"
    "last_dot_segment ''Collection()'' = ''Collection()''"
    by (simp_all add: last_dot_segment_def)
  note target = parseNavigationProperty_target
  have "np_targetEntity (parseNavigationProperty navOrders) = ''Order''"
    using target [of navOrders, THEN conjunct2, THEN conjunct2, THEN conjunct1, rule_format,
        of "''NorthwindModel.Order''" "[]"] rawType_navOrders orders seg(1)
    by (simp only: simp_thms)
  moreover have "np_targetEntity (parseNavigationProperty navTrailing) = ''B''"
    using target [of navTrailing, THEN conjunct2, THEN conjunct2, THEN conjunct1, rule_format,
        of "''A.B''" "''x''"] rawType_navTrailing trailing seg(3)
    by (simp only: simp_thms)
  moreover have "np_targetEntity (parseNavigationProperty navCustomer) = ''Customer''"
    using target [of navCustomer, THEN conjunct2, THEN conjunct2, THEN conjunct2,
        THEN conjunct1] plain seg(2)
    by (simp only: rawType_navCustomer simp_thms)
  moreover have "np_targetEntity (parseNavigationProperty navUnclosed) = ''X''"
    using target [of navUnclosed, THEN conjunct2, THEN conjunct2, THEN conjunct2,
        THEN conjunct2, THEN conjunct1, rule_format, of "''NS.X''"]
      rawType_navUnclosed unclosed seg(4)
    by (simp only: simp_thms if_True)
  moreover have "np_targetEntity (parseNavigationProperty navEmptyCollection) = ''Collection()''"
    using target [of navEmptyCollection, THEN conjunct2, THEN conjunct2, THEN conjunct2,
        THEN conjunct2, THEN conjunct2] empty seg(5)
    by (simp only: rawType_navEmptyCollection simp_thms)
  moreover have "np_type (parseNavigationProperty navOrders) = ''Collection(NorthwindModel.Order)''"
    "np_type (parseNavigationProperty navCustomer) = ''NorthwindModel.Customer''"
    "np_type (parseNavigationProperty navTrailing) = ''Collection(A.B)x''"
    "np_type (parseNavigationProperty navUnclosed) = ''Collection(NS.X''"
    using target [of navOrders, THEN conjunct1] target [of navCustomer, THEN conjunct1]
      target [of navTrailing, THEN conjunct1] target [of navUnclosed, THEN conjunct1]
    by (simp_all add: rawType_navOrders rawType_navCustomer rawType_navTrailing
        rawType_navUnclosed)
  moreover have "np_isCollection (parseNavigationProperty navOrders)"
    "\<not> np_isCollection (parseNavigationProperty navCustomer)"
    "np_isCollection (parseNavigationProperty navEmptyCollection)"
    using target [of navOrders, THEN conjunct2, THEN conjunct1]
      target [of navCustomer, THEN conjunct2, THEN conjunct1]
      target [of navEmptyCollection, THEN conjunct2, THEN conjunct1]
    by (simp_all add: rawType_navOrders rawType_navCustomer rawType_navEmptyCollection
        startsWith_def)
  ultimately show ?thesis by (simp only: simp_thms)
qed

text \<open>
  The claim as first stated fails on the raw type \<open>Collection()\<close>: the raw type begins
  with \<open>Collection(\<close> and the content between the parentheses is empty, yet the pattern
  asks for at least one character there, so the target falls back to the raw type.
\<close>

theorem parseNavigationProperty_target_counterexample:
  "startsWith (rawType navEmptyCollection) ''Collection('' \<and>
   rawType navEmptyCollection = ''Collection('' @ [] @ '')'' \<and>
   np_targetEntity (parseNavigationProperty navEmptyCollection) = ''Collection()'' \<and>
   np_targetEntity (parseNavigationProperty navEmptyCollection) \<noteq> last_dot_segment []"
  by (simp add: parseNavigationProperty_def navEmptyCollection_def attr_def getAttribute_def
      qualifiedName_def or_default_def startsWith_def Let_def greedy_group_def
      startsLineTerminator_def rawType_def last_dot_segment_def)

section \<open>Relationship edges\<close>

lemma navPropLoop_eq:
  "navPropLoop names entity navs rels =
     rels @ map (edgeOf entity) (filter (\<lambda>n. np_targetEntity n \<in> names) navs)"
  by (induction navs arbitrary: rels) (simp_all add: edgeOf_def)

lemma entityLoop_eq:
  "entityLoop names es rels =
     rels @ concat (map (\<lambda>e. map (edgeOf e)
        (filter (\<lambda>n. np_targetEntity n \<in> names) (e_navigationProperties e))) es)"
  by (induction es arbitrary: rels) (simp_all add: navPropLoop_eq)

lemma extractRelationships_eq:
  "extractRelationships md =
     concat (map (\<lambda>e. map (edgeOf e) (filter (resolves md) (e_navigationProperties e)))
       (allEntities md))"
proof -
  have "resolves md = (\<lambda>n. np_targetEntity n \<in> set (map e_name (allEntities md)))"
    by (rule ext) (simp add: resolves_def)
  then show ?thesis by (simp add: extractRelationships_def entityLoop_eq)
qed

text \<open>
  Claim C8. Every edge of \<open>extractRelationships\<close> targets the name of an entity of
  \<open>allEntities\<close>, and the edge list is, entity by entity and in order, one edge for each
  navigation property whose target resolves: nothing is merged or dropped beyond the
  unresolved targets.
\<close>

theorem extractRelationships_edges:
  "(\<forall>r \<in> set (extractRelationships md). r_targetEntity r \<in> e_name ` set (allEntities md)) \<and>
   extractRelationships md =
     concat (map (\<lambda>e. map (edgeOf e) (filter (resolves md) (e_navigationProperties e)))
       (allEntities md))"
proof -
  have "r_targetEntity r \<in> e_name ` set (allEntities md)"
    if "r \<in> set (extractRelationships md)" for r
  proof -
    from that obtain e n where "n \<in> set (e_navigationProperties e)" "resolves md n"
      "r = edgeOf e n"
      by (auto simp: extractRelationships_eq)
    then show ?thesis by (simp add: resolves_def edgeOf_def)
  qed
  then show ?thesis using extractRelationships_eq by blast
qed

text \<open>
  On the sample document the reciprocal pair \<open>Customer.Orders\<close> and \<open>Order.Customer\<close>
  gives two directed edges, and the dangling \<open>Order.Employee\<close> gives none.
\<close>

theorem extractRelationships_edges_witness:
  "extractRelationships sampleMetadata =
     [\<lparr> r_sourceEntity = ''Customer'', r_targetEntity = ''Order'', r_navProp = ''Orders'',
        r_isCollection = True \<rparr>,
      \<lparr> r_sourceEntity = ''Order'', r_targetEntity = ''Customer'', r_navProp = ''Customer'',
        r_isCollection = False \<rparr>] \<and>
   set (map r_targetEntity (extractRelationships sampleMetadata))
     \<subseteq> e_name ` set (allEntities sampleMetadata)"
proof -
  have "extractRelationships sampleMetadata =
     [\<lparr> r_sourceEntity = ''Customer'', r_targetEntity = ''Order'', r_navProp = ''Orders'',
        r_isCollection = True \<rparr>,
      \<lparr> r_sourceEntity = ''Order'', r_targetEntity = ''Customer'', r_navProp = ''Customer'',
        r_isCollection = False \<rparr>]"
    using extractRelationships_edges [of sampleMetadata]
    by (simp add: sampleMetadata_def customerEntity_def orderEntity_def edgeOf_def
        resolves_def)
  then show ?thesis using extractRelationships_edges [of sampleMetadata] by auto
qed

section \<open>Loading metadata\<close>

text \<open>
  Claim C2, as amended. \<open>setMetadata\<close> stores the metadata it is given and resets the
  selected entity, the error, the collapsed-namespace set, the diagram root and the
  expanded-node set; the search query, the loading flag and the navigation path are
  carried over from the state before.
\<close>

theorem setMetadata_effect:
  "st_metadata (setMetadata m s) = m \<and>
   st_selectedEntity (setMetadata m s) = None \<and>
   st_error (setMetadata m s) = None \<and>
   st_collapsedNamespaces (setMetadata m s) = {} \<and>
   st_diagramRootEntity (setMetadata m s) = None \<and>
   st_diagramExpandedNodes (setMetadata m s) = {} \<and>
   st_searchQuery (setMetadata m s) = st_searchQuery s \<and>
   st_loading (setMetadata m s) = st_loading s \<and>
   st_navigationPath (setMetadata m s) = st_navigationPath s"
  by (simp add: setMetadata_def)

theorem setMetadata_effect_witness:
  "st_metadata (setMetadata None loadedState) = None \<and>
   st_selectedEntity (setMetadata None loadedState) = None \<and>
   st_diagramExpandedNodes (setMetadata None loadedState) = {} \<and>
   st_searchQuery (setMetadata None loadedState) = ''order'' \<and>
   length (st_navigationPath (setMetadata None loadedState)) = 1"
  using setMetadata_effect [of None loadedState]
  by (simp add: loadedState_def initialState_def)

text \<open>
  The claim as first stated fails: after loading a document over a state with a search
  query and a navigation path, neither holds its initial empty value.
\<close>

theorem setMetadata_effect_counterexample:
  "st_searchQuery (setMetadata (Some sampleMetadata) loadedState) = ''order'' \<and>
   st_searchQuery (setMetadata (Some sampleMetadata) loadedState)
     \<noteq> st_searchQuery initialState \<and>
   st_navigationPath (setMetadata (Some sampleMetadata) loadedState)
     \<noteq> st_navigationPath initialState"
  by (simp add: setMetadata_def loadedState_def initialState_def)

section \<open>Parser results and failures\<close>

text \<open>The sample metadata is what the parser returns for the sample document.\<close>

lemma parseODataMetadata_sample:
  "parseODataMetadata (WellFormed sampleDocument) = Inr sampleMetadata"
  by code_simp

lemma querySelector_None:
  "querySelector (WellFormed r) name = None \<longleftrightarrow>
     \<not> list_ex (\<lambda>e. localName e = name) (r # descendants r)"
  by (auto simp: querySelector_def find_None_iff list_ex_iff)

text \<open>
  The test for a parse error fires on every document that holds an element named
  \<open>parsererror\<close>, well-formed or not.
\<close>

lemma parseODataMetadata_parsererror:
  assumes "list_ex (\<lambda>e. localName e = ''parsererror'') (r # descendants r)"
  shows "\<exists>e. parseODataMetadata (WellFormed r) = Inl (''XML Parse Error: '' @ textContent e)"
proof (cases "querySelector (WellFormed r) ''parsererror''")
  case None
  then show ?thesis using assms querySelector_None [of r "''parsererror''"] by simp
next
  case (Some e)
  then show ?thesis by (auto simp: parseODataMetadata_def)
qed

lemma parseODataMetadata_message: "parseODataMetadata doc = Inl msg \<Longrightarrow> msg \<noteq> []"
  by (auto simp: parseODataMetadata_def Let_def split: option.splits if_splits)

text \<open>
  A failed parse leaves the stored metadata as it was, publishes the message and clears
  the loading flag.
\<close>

lemma handleParse_failure:
  assumes "parseODataMetadata doc = Inl msg" and "isAscii xml"
  shows "st_metadata (handleParse xml doc s) = st_metadata s"
    and "st_error (handleParse xml doc s) =
           Some (if trim xml = [] then ''Please provide XML content'' else msg)"
    and "st_loading (handleParse xml doc s) = False"
  using assms(1) by (simp_all add: handleParse_def setError_def setLoading_def Let_def)

lemma handleParse_failure_sample:
  "isl (parseODataMetadata fooDocument) \<and>
   st_metadata (handleParse ''<Foo/>'' fooDocument loadedState) = Some sampleMetadata \<and>
   st_error (handleParse ''<Foo/>'' fooDocument loadedState) =
     Some ''Invalid OData metadata: Root element must be Edmx''"
  by (simp add: handleParse_def fooDocument_def trim_def isWhiteSpace_def setError_def
      setLoading_def Let_def parseODataMetadata_def querySelector_def toLowerCase_def
      lower_char_def startsWith_def loadedState_def)

text \<open>
  Claim C3. The claim gives three grounds of failure: text that is not well-formed XML,
  a root whose local name does not contain \<open>edmx\<close>, and no \<open>DataServices\<close> element under
  the root. The code fails on a fourth: its test for a parse error, which looks for any
  element named \<open>parsererror\<close>, also fires on a well-formed document that holds such an
  element. The document \<open>edmxWithParsererror\<close> is well-formed, its root is \<open>Edmx\<close> and
  its \<open>DataServices\<close> element is found, yet \<open>parseODataMetadata\<close> fails on it, reporting
  an XML parse error.
\<close>

theorem parseODataMetadata_parsererror_element:
  "parseODataMetadata (WellFormed edmxWithParsererror) = Inl ''XML Parse Error: x'' \<and>
   includes_str (toLowerCase (localName edmxWithParsererror)) ''edmx'' \<and>
   findElement edmxWithParsererror ''DataServices'' \<noteq> None"
  by (simp add: edmxWithParsererror_def parseODataMetadata_def querySelector_def attr_def
      findElement_def getElementsByTagNameNS_def EDM_NS_def EDMX_NS_def toLowerCase_def
      lower_char_def startsWith_def)

section \<open>Searching and filtering\<close>

lemma startsWith_iff: "startsWith s p \<longleftrightarrow> (\<exists>ss. s = p @ ss)"
  unfolding startsWith_def
  by (metis append_eq_conv_conj append_take_drop_id)

lemma includes_str_iff: "includes_str s q \<longleftrightarrow> (\<exists>ps ss. s = ps @ q @ ss)"
proof (induction s)
  case Nil
  then show ?case by auto
next
  case (Cons c cs)
  show ?case
  proof
    assume "includes_str (c # cs) q"
    then consider "startsWith (c # cs) q" | "includes_str cs q" by auto
    then show "\<exists>ps ss. c # cs = ps @ q @ ss"
    proof cases
      case 1
      then obtain ss where "c # cs = q @ ss" by (auto simp: startsWith_iff)
      then have "c # cs = [] @ q @ ss" by simp
      then show ?thesis by blast
    next
      case 2
      then obtain ps ss where "cs = ps @ q @ ss" using Cons by auto
      then have "c # cs = (c # ps) @ q @ ss" by simp
      then show ?thesis by blast
    qed
  next
    assume "\<exists>ps ss. c # cs = ps @ q @ ss"
    then obtain ps ss where eq: "c # cs = ps @ q @ ss" by auto
    show "includes_str (c # cs) q"
    proof (cases ps)
      case Nil
      then have "startsWith (c # cs) q" using eq by (auto simp: startsWith_iff)
      then show ?thesis by simp
    next
      case (Cons a ps')
      then have "cs = ps' @ q @ ss" using eq by simp
      then show ?thesis using Cons.IH by auto
    qed
  qed
qed







lemma includes_str_Nil: "q \<noteq> [] \<Longrightarrow> \<not> includes_str [] q"
  by simp




section \<open>Match hints\<close>


lemma find_None_ex: "find P xs = None \<longleftrightarrow> \<not> list_ex P xs"
  by (auto simp: find_None_iff list_ex_iff)

lemma find_Some_ex: "find P xs = Some x \<Longrightarrow> list_ex P xs"
  by (auto simp: find_Some_iff list_ex_iff)







lemma derived_hint_missing:
  "managerEntity \<in> set (getFilteredEntities derivedState) \<and>
   st_searchQuery derivedState = ''employee'' \<and>
   \<not> ci_substring ''employee'' (e_name managerEntity) \<and>
   getMatchHint managerEntity ''employee'' = None \<and>
   e_baseType managerEntity = Some ''HR.Employee'' \<and>
   ci_substring ''employee'' ''HR.Employee''"
  by (simp add: getFilteredEntities_def derivedState_def initialState_def managerEntity_def
      entityMatches_def getMatchHint_def ci_substring_def trim_def isWhiteSpace_def
      toLowerCase_def lower_char_def startsWith_def Let_def)

lemma fullName_hint_missing:
  "managerEntity \<in> set (getFilteredEntities (derivedState \<lparr> st_searchQuery := ''R.M'' \<rparr>)) \<and>
   \<not> ci_substring ''R.M'' (e_name managerEntity) \<and>
   getMatchHint managerEntity ''R.M'' = None \<and>
   ci_substring ''R.M'' (e_fullName managerEntity)"
  by (simp add: getFilteredEntities_def derivedState_def initialState_def managerEntity_def
      entityMatches_def getMatchHint_def ci_substring_def trim_def isWhiteSpace_def
      toLowerCase_def lower_char_def startsWith_def Let_def)

text \<open>
  Claim C10. There is a loaded document and a non-empty query for which an entity is
  among the filtered results, its name does not contain the query, and no hint is
  derived for it: the match is on the base type, or on the full name, and the hint
  derivation looks at neither.
\<close>

theorem filtered_without_hint:
  "(\<exists>s e b. st_searchQuery s \<noteq> [] \<and> e \<in> set (getFilteredEntities s) \<and>
       \<not> ci_substring (st_searchQuery s) (e_name e) \<and>
       getMatchHint e (st_searchQuery s) = None \<and>
       e_baseType e = Some b \<and> ci_substring (st_searchQuery s) b) \<and>
   (\<exists>s e. st_searchQuery s \<noteq> [] \<and> e \<in> set (getFilteredEntities s) \<and>
       \<not> ci_substring (st_searchQuery s) (e_name e) \<and>
       getMatchHint e (st_searchQuery s) = None \<and>
       ci_substring (st_searchQuery s) (e_fullName e))"
proof
  show "\<exists>s e b. st_searchQuery s \<noteq> [] \<and> e \<in> set (getFilteredEntities s) \<and>
       \<not> ci_substring (st_searchQuery s) (e_name e) \<and>
       getMatchHint e (st_searchQuery s) = None \<and>
       e_baseType e = Some b \<and> ci_substring (st_searchQuery s) b"
    using derived_hint_missing
    by (intro exI [of _ derivedState] exI [of _ managerEntity] exI [of _ "''HR.Employee''"])
      simp
  show "\<exists>s e. st_searchQuery s \<noteq> [] \<and> e \<in> set (getFilteredEntities s) \<and>
       \<not> ci_substring (st_searchQuery s) (e_name e) \<and>
       getMatchHint e (st_searchQuery s) = None \<and>
       ci_substring (st_searchQuery s) (e_fullName e)"
    using fullName_hint_missing
    by (intro exI [of _ "derivedState \<lparr> st_searchQuery := ''R.M'' \<rparr>"]
        exI [of _ managerEntity]) simp
qed

section \<open>Nodes and links of the built graph\<close>

lemma visitItem_nodes:
  "\<exists>ns. gs_nodes (snd (visitItem ctx item queue gs)) = gs_nodes gs @ ns"
  by (cases item) (simp_all add: Let_def)

lemma visitItem_inv:
  assumes "graphInv ctx gs"
  shows "graphInv ctx (snd (visitItem ctx item queue gs))"
proof (cases item)
  case (EntityItem entity depth)
  show ?thesis
  proof (cases "e_name entity \<in> gs_visited gs")
    case True
    then show ?thesis using assms EntityItem by simp
  next
    case False
    then have "e_name entity \<notin> dn_id ` set (gs_nodes gs)"
      using assms by (auto simp: graphInv_def)
    then show ?thesis using assms False unfolding EntityItem graphInv_def
      by (auto simp: Let_def)
  qed
next
  case (ComplexItem complexType depth parentProp)
  show ?thesis
  proof (cases "ct_name complexType \<in> gs_visited gs")
    case True
    then show ?thesis using assms ComplexItem by simp
  next
    case False
    then have "ct_name complexType \<notin> dn_id ` set (gs_nodes gs)"
      using assms by (auto simp: graphInv_def)
    then show ?thesis using assms False unfolding ComplexItem graphInv_def
      by (auto simp: Let_def)
  qed
qed

lemma bfsLoop_inv: "graphInv ctx gs \<Longrightarrow> graphInv ctx (bfsLoop ctx queue gs)"
proof (induction ctx queue gs rule: bfsLoop.induct)
  case (1 ctx gs)
  then show ?case by simp
next
  case (2 ctx item queue gs)
  obtain q' gs' where v: "visitItem ctx item queue gs = (q', gs')"
    by (cases "visitItem ctx item queue gs")
  then have "graphInv ctx gs'" using visitItem_inv [OF "2.prems", of item queue] by simp
  then show ?case using "2.IH" [OF v [symmetric]] v by simp
qed

lemma bfsLoop_nodes: "\<exists>ns. gs_nodes (bfsLoop ctx queue gs) = gs_nodes gs @ ns"
proof (induction ctx queue gs rule: bfsLoop.induct)
  case (1 ctx gs)
  then show ?case by simp
next
  case (2 ctx item queue gs)
  obtain q' gs' where v: "visitItem ctx item queue gs = (q', gs')"
    by (cases "visitItem ctx item queue gs")
  obtain ns where "gs_nodes gs' = gs_nodes gs @ ns"
    using visitItem_nodes [of ctx item queue gs] v by auto
  moreover obtain ns' where "gs_nodes (bfsLoop ctx q' gs') = gs_nodes gs' @ ns'"
    using "2.IH" [OF v [symmetric]] by auto
  ultimately show ?case using v by simp
qed

lemma bfsLoop_nodeMap_inv:
  "gs_nodeMap gs = map (\<lambda>n. (dn_id n, n)) (gs_nodes gs) \<Longrightarrow>
   gs_nodeMap (bfsLoop ctx queue gs) = map (\<lambda>n. (dn_id n, n)) (gs_nodes (bfsLoop ctx queue gs))"
proof (induction ctx queue gs rule: bfsLoop.induct)
  case (1 ctx gs)
  then show ?case by simp
next
  case (2 ctx item queue gs)
  obtain q' gs' where v: "visitItem ctx item queue gs = (q', gs')"
    by (cases "visitItem ctx item queue gs")
  have "gs_nodeMap (snd (visitItem ctx item queue gs))
      = map (\<lambda>n. (dn_id n, n)) (gs_nodes (snd (visitItem ctx item queue gs)))"
    using "2.prems" by (cases item) (simp_all add: Let_def)
  then show ?case using "2.IH" [OF v [symmetric]] v by simp
qed

lemma addLink_inv:
  assumes "linkInv Q ls" "Q node"
  shows "linkInv Q (addLink node targetNode c n p ls)"
  using assms unfolding linkInv_def addLink_def Let_def
  by (auto simp: keyOf_def)

lemma navLinks_inv:
  assumes "Q node"
  shows "linkInv Q ls \<Longrightarrow> linkInv Q (navLinks nodeMap node navs ls)"
proof (induction navs arbitrary: ls)
  case Nil
  then show ?case by simp
next
  case (Cons nav rest)
  then show ?case using addLink_inv [where Q = Q, OF _ assms]
    by (cases "mapGet nodeMap (np_targetEntity nav)") simp_all
qed

lemma nestedLinks_inv:
  assumes "Q node"
  shows "linkInv Q ls \<Longrightarrow> linkInv Q (nestedLinks nodeMap node ncs ls)"
proof (induction ncs arbitrary: ls)
  case Nil
  then show ?case by simp
next
  case (Cons nested rest)
  then show ?case using addLink_inv [where Q = Q, OF _ assms]
    by (cases "mapGet nodeMap (nc_typeName nested)") simp_all
qed

lemma linkLoop_inv:
  assumes "\<forall>n \<in> set nodes. dn_isExpanded n \<or> dn_isRoot n \<longrightarrow> Q n"
  shows "linkInv Q ls \<Longrightarrow> linkInv Q (linkLoop store nodeMap nodes ls)"
  using assms
proof (induction nodes arbitrary: ls)
  case Nil
  then show ?case by simp
next
  case (Cons node rest)
  show ?case
  proof (cases "dn_isExpanded node \<or> dn_isRoot node")
    case True
    then have "Q node" using Cons.prems(2) by auto
    then have "linkInv Q (nestedLinks nodeMap node
        (getNestedCollections store (nodeProperties node))
        (navLinks nodeMap node (nodeNavigationProperties node) ls))"
      using Cons.prems(1) by (intro nestedLinks_inv navLinks_inv)
    then show ?thesis using True Cons.IH Cons.prems(2) by simp
  next
    case False
    then show ?thesis using Cons by simp
  qed
qed

lemma sortKey_mod: "sortKey c mod 256 = of_char c"
  by (simp add: sortKey_def)

lemma sortKey_inj: "inj sortKey"
proof (rule injI)
  fix c d assume "sortKey c = sortKey d"
  then have "sortKey c mod 256 = sortKey d mod 256" by simp
  then have "(of_char c :: nat) = of_char d" by (simp only: sortKey_mod)
  then show "c = d" by simp
qed

lemma linkKey_commute: "linkKey a b = linkKey b a"
proof -
  have "a = b" if "\<not> less_utf16 a b" "\<not> less_utf16 b a"
  proof -
    have "map sortKey a = map sortKey b" using that by (simp add: less_utf16_def)
    then show ?thesis using sortKey_inj by (simp add: inj_map_eq_map)
  qed
  then show ?thesis by (auto simp: linkKey_def less_utf16_def)
qed

lemma distinct_map_coarser:
  assumes "distinct (map f xs)" and coarser: "\<And>x y. g x = g y \<Longrightarrow> f x = f y"
  shows "distinct (map g xs)"
proof -
  from assms(1) have dx: "distinct xs" and inj: "inj_on f (set xs)"
    by (simp_all add: distinct_map)
  have "inj_on g (set xs)"
  proof (rule inj_onI)
    fix x y
    assume "x \<in> set xs" "y \<in> set xs" "g x = g y"
    moreover from this have "f x = f y" by (intro coarser)
    ultimately show "x = y" using inj by (simp add: inj_on_def)
  qed
  with dx show ?thesis by (simp add: distinct_map)
qed

lemma pair_keyOf:
  assumes "{dn_id (dl_source l), dn_id (dl_target l)}
             = {dn_id (dl_source l'), dn_id (dl_target l')}"
  shows "keyOf l = keyOf l'"
proof -
  from assms consider
      "dn_id (dl_source l) = dn_id (dl_source l')" "dn_id (dl_target l) = dn_id (dl_target l')"
    | "dn_id (dl_source l) = dn_id (dl_target l')" "dn_id (dl_target l) = dn_id (dl_source l')"
    unfolding doubleton_eq_iff by blast
  then show ?thesis
  proof cases
    case 1
    then show ?thesis by (simp add: keyOf_def)
  next
    case 2
    then show ?thesis unfolding keyOf_def
      using linkKey_commute [of "dn_id (dl_source l')" "dn_id (dl_target l')"] by simp
  qed
qed

text \<open>
  Claim C1. \<open>buildGraph\<close> is a total function: its loop was shown above to end for every
  context, queue and state, whatever cycles the navigation properties form. For every
  store, root entity, selected entity, set of expanded identifiers, entity map and
  document, no identifier occurs twice among the emitted nodes, and the first node is
  the root's, with depth 0 and \<open>isRoot\<close> set.
\<close>

theorem buildGraph_nodes:
  "distinct (map dn_id (g_nodes (buildGraph store rootEntity selectedEntity expandedNodes
      entityMap metadata))) \<and>
   g_nodes (buildGraph store rootEntity selectedEntity expandedNodes entityMap metadata) \<noteq> [] \<and>
   dn_id (hd (g_nodes (buildGraph store rootEntity selectedEntity expandedNodes entityMap
      metadata))) = e_name rootEntity \<and>
   dn_depth (hd (g_nodes (buildGraph store rootEntity selectedEntity expandedNodes entityMap
      metadata))) = 0 \<and>
   dn_isRoot (hd (g_nodes (buildGraph store rootEntity selectedEntity expandedNodes entityMap
      metadata)))"
proof -
  define ctx where "ctx = \<lparr> gc_rootEntity = rootEntity, gc_selectedEntity = selectedEntity,
      gc_expandedNodes = expandedNodes, gc_entityMap = entityMap,
      gc_complexTypeMap = map (\<lambda>ct. (ct_name ct, ct)) (allComplexTypes metadata),
      gc_store = store \<rparr>"
  define gs0 where "gs0 = \<lparr> gs_visited = {}, gs_nodes = [], gs_nodeMap = [] \<rparr>"
  define gs where "gs = bfsLoop ctx [EntityItem rootEntity 0] gs0"
  have nodes: "g_nodes (buildGraph store rootEntity selectedEntity expandedNodes entityMap
      metadata) = gs_nodes gs"
    by (simp add: buildGraph_def Let_def gs_def ctx_def gs0_def)
  have "graphInv ctx gs0" by (simp add: graphInv_def gs0_def)
  then have "graphInv ctx gs" unfolding gs_def by (rule bfsLoop_inv)
  then have d: "distinct (map dn_id (gs_nodes gs))" by (simp add: graphInv_def)
  obtain q1 gs1 where v: "visitItem ctx (EntityItem rootEntity 0) [] gs0 = (q1, gs1)"
    by (cases "visitItem ctx (EntityItem rootEntity 0) [] gs0")
  then obtain n where n: "gs_nodes gs1 = [n]" "dn_id n = e_name rootEntity" "dn_depth n = 0"
    "dn_isRoot n"
    by (auto simp: gs0_def ctx_def Let_def)
  have "gs = bfsLoop ctx q1 gs1" using v by (simp add: gs_def)
  then obtain ns where "gs_nodes gs = n # ns"
    using bfsLoop_nodes [of ctx q1 gs1] n(1) by auto
  then show ?thesis using d n nodes by simp
qed

text \<open>
  On the sample, whose two entities point at each other, the build from \<open>Customer\<close>
  emits \<open>Customer\<close> once, at depth 0, and \<open>Order\<close> once, at depth 1.
\<close>

theorem buildGraph_nodes_witness:
  "map (\<lambda>n. (dn_id n, dn_depth n, dn_isRoot n))
     (g_nodes (buildGraph diagramState customerEntity (Some orderEntity)
        {''Customer'', ''Order''} sampleEntityMap sampleMetadata))
     = [(''Customer'', 0, True), (''Order'', 1, False)] \<and>
   distinct (map dn_id
     (g_nodes (buildGraph diagramState customerEntity (Some orderEntity)
        {''Customer'', ''Order''} sampleEntityMap sampleMetadata)))"
proof -
  have "map (\<lambda>n. (dn_id n, dn_depth n, dn_isRoot n))
     (g_nodes (buildGraph diagramState customerEntity (Some orderEntity)
        {''Customer'', ''Order''} sampleEntityMap sampleMetadata))
     = [(''Customer'', 0, True), (''Order'', 1, False)]"
    by code_simp
  then show ?thesis
    using buildGraph_nodes [of diagramState customerEntity "Some orderEntity"
        "{''Customer'', ''Order''}" sampleEntityMap sampleMetadata]
    by simp
qed

text \<open>
  Claim C7. Every link of the built graph starts at a node whose identifier is in the
  expanded set or is the root's name, so a node that is neither contributes no outgoing
  link; and no two links join the same unordered pair of identifiers.
\<close>

theorem buildGraph_links:
  "(\<forall>l \<in> set (g_links (buildGraph store rootEntity selectedEntity expandedNodes entityMap
        metadata)).
      dn_id (dl_source l) \<in> expandedNodes \<or> dn_id (dl_source l) = e_name rootEntity) \<and>
   distinct (map (\<lambda>l. {dn_id (dl_source l), dn_id (dl_target l)})
     (g_links (buildGraph store rootEntity selectedEntity expandedNodes entityMap metadata)))"
proof -
  define ctx where "ctx = \<lparr> gc_rootEntity = rootEntity, gc_selectedEntity = selectedEntity,
      gc_expandedNodes = expandedNodes, gc_entityMap = entityMap,
      gc_complexTypeMap = map (\<lambda>ct. (ct_name ct, ct)) (allComplexTypes metadata),
      gc_store = store \<rparr>"
  define gs0 where "gs0 = \<lparr> gs_visited = {}, gs_nodes = [], gs_nodeMap = [] \<rparr>"
  define gs where "gs = bfsLoop ctx [EntityItem rootEntity 0] gs0"
  define ls where "ls = linkLoop store (gs_nodeMap gs) (gs_nodes gs)
      \<lparr> ls_links = [], ls_linkSet = {} \<rparr>"
  define Q :: "DiagramNode \<Rightarrow> bool" where "Q = (\<lambda>n. dn_id n \<in> expandedNodes \<or> dn_id n = e_name rootEntity)"
  have links: "g_links (buildGraph store rootEntity selectedEntity expandedNodes entityMap
      metadata) = ls_links ls"
    by (simp add: buildGraph_def Let_def ls_def gs_def ctx_def gs0_def)
  have "graphInv ctx gs0" by (simp add: graphInv_def gs0_def)
  then have "graphInv ctx gs" unfolding gs_def by (rule bfsLoop_inv)
  then have "\<forall>n \<in> set (gs_nodes gs). dn_isExpanded n \<or> dn_isRoot n \<longrightarrow> Q n"
    by (auto simp: graphInv_def Q_def ctx_def)
  moreover have "linkInv Q \<lparr> ls_links = [], ls_linkSet = {} \<rparr>"
    by (simp add: linkInv_def)
  ultimately have inv: "linkInv Q ls" unfolding ls_def by (intro linkLoop_inv)
  then have "distinct (map keyOf (ls_links ls))" by (simp add: linkInv_def)
  then have "distinct (map (\<lambda>l. {dn_id (dl_source l), dn_id (dl_target l)}) (ls_links ls))"
    by (rule distinct_map_coarser) (rule pair_keyOf)
  moreover have "\<forall>l \<in> set (ls_links ls). Q (dl_source l)"
    using inv by (simp add: linkInv_def)
  ultimately show ?thesis unfolding links Q_def by simp
qed

text \<open>
  On the sample, with both nodes expanded, the two navigation properties between
  \<open>Customer\<close> and \<open>Order\<close> give one link; with only \<open>Customer\<close> expanded, \<open>Order\<close> is
  emitted but starts no link.
\<close>

theorem buildGraph_links_witness:
  "map (\<lambda>l. (dn_id (dl_source l), dn_id (dl_target l), dl_isCollection l, dl_isNested l))
     (g_links (buildGraph diagramState customerEntity (Some orderEntity)
        {''Customer'', ''Order''} sampleEntityMap sampleMetadata))
     = [(''Customer'', ''Order'', True, False)] \<and>
   map (\<lambda>l. dn_id (dl_source l))
     (g_links (buildGraph diagramState customerEntity (Some orderEntity)
        {''Customer''} sampleEntityMap sampleMetadata))
     = [''Customer'']"
proof -
  have "map (\<lambda>l. (dn_id (dl_source l), dn_id (dl_target l), dl_isCollection l, dl_isNested l))
     (g_links (buildGraph diagramState customerEntity (Some orderEntity)
        {''Customer'', ''Order''} sampleEntityMap sampleMetadata))
     = [(''Customer'', ''Order'', True, False)]"
    by code_simp
  moreover have "map (\<lambda>l. dn_id (dl_source l))
     (g_links (buildGraph diagramState customerEntity (Some orderEntity)
        {''Customer''} sampleEntityMap sampleMetadata))
     = [''Customer'']"
    by code_simp
  ultimately show ?thesis
    using buildGraph_links [of diagramState customerEntity "Some orderEntity"
        "{''Customer'', ''Order''}" sampleEntityMap sampleMetadata]
    by simp
qed

section \<open>Coordinates of the laid-out nodes\<close>

lemma unplaced_fields:
  "dn_width (unplaced n) = dn_width n" "dn_depth (unplaced n) = dn_depth n"
  "dn_displayName (unplaced n) = dn_displayName n" "dn_id (unplaced n) = dn_id n"
  by (simp_all add: unplaced_def)

lemma unplaced_update: "unplaced (n \<lparr> dn_x := a, dn_y := b \<rparr>) = unplaced n"
  by (simp add: unplaced_def)

lemma placeLevel_unplaced: "map unplaced (placeLevel y idxs x ns) = map unplaced ns"
proof (induction idxs arbitrary: x ns)
  case Nil
  then show ?case by simp
next
  case (Cons i rest)
  have "map unplaced (ns[i := (ns ! i) \<lparr> dn_x := x + dn_width (ns ! i) / 2, dn_y := y \<rparr>])
      = map unplaced ns"
  proof (cases "i < length ns")
    case True
    then show ?thesis by (simp add: map_update unplaced_update list_update_same_conv)
  next
    case False
    then show ?thesis by (simp add: list_update_beyond)
  qed
  then show ?case using Cons.IH by simp
qed

lemma layoutLevels_unplaced: "map unplaced (layoutLevels bs ns) = map unplaced ns"
proof (induction bs arbitrary: ns)
  case Nil
  then show ?case by simp
next
  case (Cons b bs)
  obtain d idxs where b: "b = (d, idxs)" by (cases b)
  show ?case unfolding b by (simp add: Cons.IH placeLevel_unplaced)
qed

lemma unplaced_same:
  assumes "map unplaced ns' = map unplaced ns"
  shows "length ns' = length ns"
    and "k < length ns \<Longrightarrow> dn_width (ns' ! k) = dn_width (ns ! k)"
    and "k < length ns \<Longrightarrow> dn_depth (ns' ! k) = dn_depth (ns ! k)"
    and "k < length ns \<Longrightarrow> dn_displayName (ns' ! k) = dn_displayName (ns ! k)"
    and "k < length ns \<Longrightarrow> dn_id (ns' ! k) = dn_id (ns ! k)"
proof -
  show len: "length ns' = length ns" using assms by (metis length_map)
  have "unplaced (ns' ! k) = unplaced (ns ! k)" if "k < length ns" for k
    using assms that len by (metis nth_map)
  then show "k < length ns \<Longrightarrow> dn_width (ns' ! k) = dn_width (ns ! k)"
    and "k < length ns \<Longrightarrow> dn_depth (ns' ! k) = dn_depth (ns ! k)"
    and "k < length ns \<Longrightarrow> dn_displayName (ns' ! k) = dn_displayName (ns ! k)"
    and "k < length ns \<Longrightarrow> dn_id (ns' ! k) = dn_id (ns ! k)"
    by (metis unplaced_fields)+
qed

lemma placeLevel_untouched: "k \<notin> set idxs \<Longrightarrow> placeLevel y idxs x ns ! k = ns ! k"
  by (induction idxs arbitrary: x ns) simp_all

lemma layoutLevels_untouched:
  "\<forall>b \<in> set bs. k \<notin> set (snd b) \<Longrightarrow> layoutLevels bs ns ! k = ns ! k"
proof (induction bs arbitrary: ns)
  case Nil
  then show ?case by simp
next
  case (Cons b bs)
  obtain d idxs where b: "b = (d, idxs)" by (cases b)
  show ?case using Cons unfolding b by (simp add: placeLevel_untouched)
qed

lemma placeLevel_geometry:
  assumes "sorted_wrt (<) idxs" "\<forall>i \<in> set idxs. i < length ns"
    "\<forall>k < length ns. 0 \<le> dn_width (ns ! k)"
  shows "\<forall>i \<in> set idxs.
           dn_y (placeLevel y idxs x ns ! i) = y \<and>
           x \<le> dn_x (placeLevel y idxs x ns ! i) - dn_width (ns ! i) / 2 \<and>
           (\<forall>j \<in> set idxs. i < j \<longrightarrow>
              dn_x (placeLevel y idxs x ns ! i) + dn_width (ns ! i) / 2 + NODE_SPACING
                \<le> dn_x (placeLevel y idxs x ns ! j) - dn_width (ns ! j) / 2)"
  using assms
proof (induction idxs arbitrary: x ns)
  case Nil
  then show ?case by simp
next
  case (Cons i rest)
  define n1 where "n1 = (ns ! i) \<lparr> dn_x := x + dn_width (ns ! i) / 2, dn_y := y \<rparr>"
  define ns1 where "ns1 = ns[i := n1]"
  define x1 where "x1 = x + dn_width (ns ! i) + NODE_SPACING"
  define res where "res = placeLevel y rest x1 ns1"
  have res: "placeLevel y (i # rest) x ns = res"
    by (simp add: res_def ns1_def n1_def x1_def)
  have i_len: "i < length ns" using Cons.prems(2) by simp
  have i_rest: "i \<notin> set rest" "\<forall>j \<in> set rest. i < j" using Cons.prems(1) by auto
  have w1: "dn_width (ns1 ! k) = dn_width (ns ! k)" if "k < length ns" for k
    using that by (cases "k = i") (simp_all add: ns1_def n1_def)
  have len1: "length ns1 = length ns" by (simp add: ns1_def)
  have wi: "0 \<le> dn_width (ns ! i)" using Cons.prems(3) i_len by simp
  have ih: "\<forall>a \<in> set rest.
           dn_y (res ! a) = y \<and>
           x1 \<le> dn_x (res ! a) - dn_width (ns1 ! a) / 2 \<and>
           (\<forall>j \<in> set rest. a < j \<longrightarrow>
              dn_x (res ! a) + dn_width (ns1 ! a) / 2 + NODE_SPACING
                \<le> dn_x (res ! j) - dn_width (ns1 ! j) / 2)"
    unfolding res_def
  proof (rule Cons.IH)
    show "sorted_wrt (<) rest" using Cons.prems(1) by simp
    show "\<forall>i \<in> set rest. i < length ns1" using Cons.prems(2) len1 by simp
    show "\<forall>k < length ns1. 0 \<le> dn_width (ns1 ! k)" using Cons.prems(3) w1 len1 by simp
  qed
  have head: "res ! i = n1"
    unfolding res_def using placeLevel_untouched [OF i_rest(1)] i_len by (simp add: ns1_def)
  have head_xy: "dn_y (res ! i) = y" "dn_x (res ! i) = x + dn_width (ns ! i) / 2"
    unfolding head by (simp_all add: n1_def)
  have rest_facts: "dn_y (res ! a) = y" "x1 \<le> dn_x (res ! a) - dn_width (ns ! a) / 2"
    if "a \<in> set rest" for a
    using ih that w1 Cons.prems(2) by auto
  have sp: "0 \<le> NODE_SPACING" by (simp add: NODE_SPACING_def)
  show ?case unfolding res
  proof (intro ballI conjI impI)
    fix a assume a: "a \<in> set (i # rest)"
    show "dn_y (res ! a) = y" using a head_xy rest_facts by auto
    show "x \<le> dn_x (res ! a) - dn_width (ns ! a) / 2"
    proof (cases "a = i")
      case True
      then show ?thesis using head_xy by simp
    next
      case False
      then have "x1 \<le> dn_x (res ! a) - dn_width (ns ! a) / 2" using a rest_facts by simp
      then show ?thesis using wi sp by (simp add: x1_def)
    qed
    fix j assume j: "j \<in> set (i # rest)" "a < j"
    show "dn_x (res ! a) + dn_width (ns ! a) / 2 + NODE_SPACING
        \<le> dn_x (res ! j) - dn_width (ns ! j) / 2"
    proof (cases "a = i")
      case True
      then have "j \<in> set rest" using j by auto
      then have "x1 \<le> dn_x (res ! j) - dn_width (ns ! j) / 2" by (rule rest_facts)
      then show ?thesis using True head_xy by (simp add: x1_def)
    next
      case False
      then have ar: "a \<in> set rest" using a by simp
      then have "i < a" using i_rest by simp
      then have jr: "j \<in> set rest" using j by auto
      have "a < length ns" "j < length ns" using ar jr Cons.prems(2) by auto
      then have wa: "dn_width (ns1 ! a) = dn_width (ns ! a)"
        and wj: "dn_width (ns1 ! j) = dn_width (ns ! j)"
        by (simp_all add: w1)
      have "dn_x (res ! a) + dn_width (ns1 ! a) / 2 + NODE_SPACING
          \<le> dn_x (res ! j) - dn_width (ns1 ! j) / 2"
        using ih ar jr j(2) by blast
      then show ?thesis by (simp only: wa wj)
    qed
  qed
qed

lemma layoutLevels_geometry:
  assumes "distinct (map fst bs)"
    and "\<forall>b \<in> set bs. sorted_wrt (<) (snd b) \<and>
           (\<forall>i \<in> set (snd b). i < length ns \<and> lab i = fst b)"
    and "\<forall>k < length ns. 0 \<le> dn_width (ns ! k)"
  shows "\<forall>b \<in> set bs. \<forall>i \<in> set (snd b).
           dn_y (layoutLevels bs ns ! i) = of_nat (fst b) * LEVEL_HEIGHT \<and>
           (\<forall>j \<in> set (snd b). i < j \<longrightarrow>
              dn_x (layoutLevels bs ns ! i) + dn_width (ns ! i) / 2 + NODE_SPACING
                \<le> dn_x (layoutLevels bs ns ! j) - dn_width (ns ! j) / 2)"
  using assms
proof (induction bs arbitrary: ns)
  case Nil
  then show ?case by simp
next
  case (Cons b bs)
  obtain d idxs where b: "b = (d, idxs)" by (cases b)
  define y0 where "y0 = of_nat d * LEVEL_HEIGHT"
  define x0 where "x0 = - totalWidth ns idxs / 2"
  define ns1 where "ns1 = placeLevel y0 idxs x0 ns"
  define res where "res = layoutLevels bs ns1"
  have res: "layoutLevels (b # bs) ns = res"
    by (simp add: b res_def ns1_def y0_def x0_def)
  have same: "map unplaced ns1 = map unplaced ns"
    unfolding ns1_def by (rule placeLevel_unplaced)
  have len1: "length ns1 = length ns" using unplaced_same(1) [OF same] .
  have w1: "dn_width (ns1 ! k) = dn_width (ns ! k)" if "k < length ns" for k
    using unplaced_same(2) [OF same that] .
  have sorted: "sorted_wrt (<) idxs" and inrange: "\<forall>i \<in> set idxs. i < length ns"
    and label: "\<forall>i \<in> set idxs. lab i = d"
    using Cons.prems(2) by (auto simp: b)
  have geo: "\<forall>i \<in> set idxs.
           dn_y (ns1 ! i) = y0 \<and>
           x0 \<le> dn_x (ns1 ! i) - dn_width (ns ! i) / 2 \<and>
           (\<forall>j \<in> set idxs. i < j \<longrightarrow>
              dn_x (ns1 ! i) + dn_width (ns ! i) / 2 + NODE_SPACING
                \<le> dn_x (ns1 ! j) - dn_width (ns ! j) / 2)"
    unfolding ns1_def using sorted inrange Cons.prems(3) by (rule placeLevel_geometry)
  have later: "res ! i = ns1 ! i" if "i \<in> set idxs" for i
    unfolding res_def
  proof (rule layoutLevels_untouched, rule ballI)
    fix c assume c: "c \<in> set bs"
    show "i \<notin> set (snd c)"
    proof
      assume "i \<in> set (snd c)"
      then have "lab i = fst c" using Cons.prems(2) c by simp
      then have "fst c = d" using label that by simp
      then have "d \<in> fst ` set bs" using c by force
      then show False using Cons.prems(1) by (simp add: b)
    qed
  qed
  have ih: "\<forall>c \<in> set bs. \<forall>i \<in> set (snd c).
           dn_y (res ! i) = of_nat (fst c) * LEVEL_HEIGHT \<and>
           (\<forall>j \<in> set (snd c). i < j \<longrightarrow>
              dn_x (res ! i) + dn_width (ns1 ! i) / 2 + NODE_SPACING
                \<le> dn_x (res ! j) - dn_width (ns1 ! j) / 2)"
    unfolding res_def
  proof (rule Cons.IH)
    show "distinct (map fst bs)" using Cons.prems(1) by simp
    show "\<forall>b \<in> set bs. sorted_wrt (<) (snd b) \<and>
           (\<forall>i \<in> set (snd b). i < length ns1 \<and> lab i = fst b)"
      using Cons.prems(2) len1 by simp
    show "\<forall>k < length ns1. 0 \<le> dn_width (ns1 ! k)"
      using Cons.prems(3) len1 w1 by simp
  qed
  show ?case unfolding res
  proof (intro ballI conjI impI)
    fix c i assume c: "c \<in> set (b # bs)" and i: "i \<in> set (snd c)"
    show "dn_y (res ! i) = of_nat (fst c) * LEVEL_HEIGHT"
    proof (cases "c = b")
      case True
      then show ?thesis using i later geo by (simp add: b y0_def)
    next
      case False
      then show ?thesis using c i ih by simp
    qed
    fix j assume j: "j \<in> set (snd c)" "i < j"
    show "dn_x (res ! i) + dn_width (ns ! i) / 2 + NODE_SPACING
        \<le> dn_x (res ! j) - dn_width (ns ! j) / 2"
    proof (cases "c = b")
      case True
      then have ii: "i \<in> set idxs" and jj: "j \<in> set idxs" using i j by (simp_all add: b)
      have "dn_x (ns1 ! i) + dn_width (ns ! i) / 2 + NODE_SPACING
                \<le> dn_x (ns1 ! j) - dn_width (ns ! j) / 2"
        using geo ii jj j(2) by blast
      then show ?thesis by (simp only: later [OF ii] later [OF jj])
    next
      case False
      then have cb: "c \<in> set bs" using c by simp
      have "i < length ns" "j < length ns" using Cons.prems(2) c i j by auto
      then have wi: "dn_width (ns1 ! i) = dn_width (ns ! i)"
        and wj: "dn_width (ns1 ! j) = dn_width (ns ! j)"
        by (simp_all add: w1)
      have "dn_x (res ! i) + dn_width (ns1 ! i) / 2 + NODE_SPACING
                \<le> dn_x (res ! j) - dn_width (ns1 ! j) / 2"
        using ih cb i j by blast
      then show ?thesis by (simp only: wi wj)
    qed
  qed
qed

lemma bucketsOk_step:
  assumes ok: "bucketsOk ns i acc" and i: "i < length ns"
  shows "bucketsOk ns (Suc i)
     (case map_of acc (dn_depth (ns ! i)) of
        None \<Rightarrow> AList.update (dn_depth (ns ! i)) [i] acc
      | Some level \<Rightarrow> AList.update (dn_depth (ns ! i)) (level @ [i]) acc)"
proof (cases "map_of acc (dn_depth (ns ! i))")
  case None
  have empty: "filter (\<lambda>k. dn_depth (ns ! k) = dn_depth (ns ! i)) [0..<i] = []"
  proof -
    have "dn_depth (ns ! k) \<noteq> dn_depth (ns ! i)" if "k < i" for k
      using ok that None unfolding bucketsOk_def by metis
    then show ?thesis by (auto simp: filter_empty_conv)
  qed
  show ?thesis
    unfolding None option.case bucketsOk_def
  proof (intro conjI allI impI)
    show "distinct (map fst (AList.update (dn_depth (ns ! i)) [i] acc))"
      using ok by (simp add: bucketsOk_def AList.distinct_update)
    fix d idxs
    assume "map_of (AList.update (dn_depth (ns ! i)) [i] acc) d = Some idxs"
    then show "idxs = filter (\<lambda>k. dn_depth (ns ! k) = d) [0..<Suc i]"
      using ok empty by (auto simp: bucketsOk_def AList.update_conv' split: if_splits)
  next
    fix k assume "k < Suc i"
    then show "map_of (AList.update (dn_depth (ns ! i)) [i] acc) (dn_depth (ns ! k)) \<noteq> None"
      using ok by (auto simp: bucketsOk_def AList.update_conv' less_Suc_eq)
  qed
next
  case (Some level)
  have level: "level = filter (\<lambda>k. dn_depth (ns ! k) = dn_depth (ns ! i)) [0..<i]"
    using ok Some by (simp add: bucketsOk_def)
  show ?thesis
    unfolding Some option.case bucketsOk_def
  proof (intro conjI allI impI)
    show "distinct (map fst (AList.update (dn_depth (ns ! i)) (level @ [i]) acc))"
      using ok by (simp add: bucketsOk_def AList.distinct_update)
    fix d idxs
    assume "map_of (AList.update (dn_depth (ns ! i)) (level @ [i]) acc) d = Some idxs"
    then show "idxs = filter (\<lambda>k. dn_depth (ns ! k) = d) [0..<Suc i]"
      using ok level by (auto simp: bucketsOk_def AList.update_conv' split: if_splits)
  next
    fix k assume "k < Suc i"
    then show "map_of (AList.update (dn_depth (ns ! i)) (level @ [i]) acc) (dn_depth (ns ! k))
        \<noteq> None"
      using ok by (auto simp: bucketsOk_def AList.update_conv' less_Suc_eq)
  qed
qed

lemma groupByDepth_ok:
  assumes "bucketsOk ns (length pre) acc" "ns = pre @ rest"
  shows "bucketsOk ns (length ns) (groupByDepth rest (length pre) acc)"
  using assms
proof (induction rest arbitrary: pre acc)
  case Nil
  then show ?case by simp
next
  case (Cons node rest)
  have i: "length pre < length ns" and node: "ns ! length pre = node"
    using Cons.prems(2) by simp_all
  have "bucketsOk ns (length (pre @ [node]))
     (case map_of acc (dn_depth node) of
        None \<Rightarrow> AList.update (dn_depth node) [length pre] acc
      | Some level \<Rightarrow> AList.update (dn_depth node) (level @ [length pre]) acc)"
    using bucketsOk_step [OF Cons.prems(1) i] unfolding node by simp
  moreover have "ns = (pre @ [node]) @ rest" using Cons.prems(2) by simp
  ultimately have "bucketsOk ns (length ns)
     (groupByDepth rest (length (pre @ [node]))
       (case map_of acc (dn_depth node) of
        None \<Rightarrow> AList.update (dn_depth node) [length pre] acc
      | Some level \<Rightarrow> AList.update (dn_depth node) (level @ [length pre]) acc))"
    by (rule Cons.IH)
  then show ?case by simp
qed

lemma groupByDepth_buckets: "bucketsOk ns (length ns) (groupByDepth ns 0 [])"
proof -
  have "bucketsOk ns (length ([] :: DiagramNode list)) []" by (simp add: bucketsOk_def)
  from groupByDepth_ok [OF this, of ns] show ?thesis by simp
qed

lemma layoutNodes_geometry:
  assumes widths: "\<forall>k < length ns. 0 \<le> dn_width (ns ! k)"
  shows "map unplaced (layoutNodes ns) = map unplaced ns"
    and "\<forall>i < length ns. dn_y (layoutNodes ns ! i) = of_nat (dn_depth (ns ! i)) * LEVEL_HEIGHT"
    and "\<forall>i j. i < j \<and> j < length ns \<and> dn_depth (ns ! i) = dn_depth (ns ! j) \<longrightarrow>
           dn_x (layoutNodes ns ! i) + dn_width (ns ! i) / 2 + NODE_SPACING
             \<le> dn_x (layoutNodes ns ! j) - dn_width (ns ! j) / 2"
proof -
  define bs where "bs = groupByDepth ns 0 []"
  have out: "layoutNodes ns = layoutLevels bs ns" by (simp add: layoutNodes_def bs_def)
  have ok: "bucketsOk ns (length ns) bs" unfolding bs_def by (rule groupByDepth_buckets)
  then have keys: "distinct (map fst bs)" by (simp add: bucketsOk_def)
  have bucket: "snd b = filter (\<lambda>k. dn_depth (ns ! k) = fst b) [0..<length ns]"
    if "b \<in> set bs" for b
  proof -
    have "map_of bs (fst b) = Some (snd b)" using keys that by simp
    then show ?thesis using ok unfolding bucketsOk_def by blast
  qed
  have present: "\<exists>b \<in> set bs. fst b = dn_depth (ns ! i) \<and> i \<in> set (snd b)"
    if "i < length ns" for i
  proof -
    have "\<forall>k < length ns. map_of bs (dn_depth (ns ! k)) \<noteq> None"
      using ok unfolding bucketsOk_def by blast
    then have "map_of bs (dn_depth (ns ! i)) \<noteq> None" using that by blast
    then obtain idxs where "map_of bs (dn_depth (ns ! i)) = Some idxs" by auto
    then have "(dn_depth (ns ! i), idxs) \<in> set bs" by (rule map_of_SomeD)
    moreover from this have "idxs = filter (\<lambda>k. dn_depth (ns ! k) = dn_depth (ns ! i))
        [0..<length ns]"
      using bucket by fastforce
    ultimately show ?thesis using that by force
  qed
  have geo: "\<forall>b \<in> set bs. \<forall>i \<in> set (snd b).
           dn_y (layoutLevels bs ns ! i) = of_nat (fst b) * LEVEL_HEIGHT \<and>
           (\<forall>j \<in> set (snd b). i < j \<longrightarrow>
              dn_x (layoutLevels bs ns ! i) + dn_width (ns ! i) / 2 + NODE_SPACING
                \<le> dn_x (layoutLevels bs ns ! j) - dn_width (ns ! j) / 2)"
    using keys
  proof (rule layoutLevels_geometry [where lab = "\<lambda>i. dn_depth (ns ! i)"])
    show "\<forall>b \<in> set bs. sorted_wrt (<) (snd b) \<and>
           (\<forall>i \<in> set (snd b). i < length ns \<and> dn_depth (ns ! i) = fst b)"
    proof (intro ballI conjI)
      fix b assume b: "b \<in> set bs"
      show "sorted_wrt (<) (snd b)"
        unfolding bucket [OF b] by (simp add: sorted_wrt_filter)
      fix i assume "i \<in> set (snd b)"
      then show "i < length ns" "dn_depth (ns ! i) = fst b"
        unfolding bucket [OF b] by simp_all
    qed
    show "\<forall>k < length ns. 0 \<le> dn_width (ns ! k)" by (rule widths)
  qed
  show "map unplaced (layoutNodes ns) = map unplaced ns"
    unfolding out by (rule layoutLevels_unplaced)
  show "\<forall>i < length ns. dn_y (layoutNodes ns ! i) = of_nat (dn_depth (ns ! i)) * LEVEL_HEIGHT"
  proof (intro allI impI)
    fix i assume "i < length ns"
    then obtain b where "b \<in> set bs" "fst b = dn_depth (ns ! i)" "i \<in> set (snd b)"
      using present by blast
    then show "dn_y (layoutNodes ns ! i) = of_nat (dn_depth (ns ! i)) * LEVEL_HEIGHT"
      unfolding out using geo by fastforce
  qed
  show "\<forall>i j. i < j \<and> j < length ns \<and> dn_depth (ns ! i) = dn_depth (ns ! j) \<longrightarrow>
           dn_x (layoutNodes ns ! i) + dn_width (ns ! i) / 2 + NODE_SPACING
             \<le> dn_x (layoutNodes ns ! j) - dn_width (ns ! j) / 2"
  proof (intro allI impI)
    fix i j assume ij: "i < j \<and> j < length ns \<and> dn_depth (ns ! i) = dn_depth (ns ! j)"
    then have "i < length ns" by simp
    then obtain b where b: "b \<in> set bs" "fst b = dn_depth (ns ! i)" "i \<in> set (snd b)"
      using present by blast
    have "j \<in> set (snd b)" unfolding bucket [OF b(1)] using ij b(2) by simp
    then show "dn_x (layoutNodes ns ! i) + dn_width (ns ! i) / 2 + NODE_SPACING
             \<le> dn_x (layoutNodes ns ! j) - dn_width (ns ! j) / 2"
      unfolding out using geo b(1,3) ij by blast
  qed
qed

lemma visitItem_width:
  assumes "\<forall>n \<in> set (gs_nodes gs). dn_width n = calculateNodeWidth (dn_displayName n)"
  shows "\<forall>n \<in> set (gs_nodes (snd (visitItem ctx item queue gs))).
           dn_width n = calculateNodeWidth (dn_displayName n)"
  using assms by (cases item) (auto simp: Let_def)

lemma bfsLoop_width:
  "\<forall>n \<in> set (gs_nodes gs). dn_width n = calculateNodeWidth (dn_displayName n) \<Longrightarrow>
   \<forall>n \<in> set (gs_nodes (bfsLoop ctx queue gs)).
     dn_width n = calculateNodeWidth (dn_displayName n)"
proof (induction ctx queue gs rule: bfsLoop.induct)
  case (1 ctx gs)
  then show ?case by simp
next
  case (2 ctx item queue gs)
  obtain q' gs' where v: "visitItem ctx item queue gs = (q', gs')"
    by (cases "visitItem ctx item queue gs")
  then have "\<forall>n \<in> set (gs_nodes gs'). dn_width n = calculateNodeWidth (dn_displayName n)"
    using visitItem_width [OF "2.prems", of ctx item queue] by simp
  then show ?case using "2.IH" [OF v [symmetric]] v by simp
qed

lemma buildGraph_width:
  "\<forall>n \<in> set (g_nodes (buildGraph store rootEntity selectedEntity expandedNodes entityMap
      metadata)). dn_width n = calculateNodeWidth (dn_displayName n)"
  unfolding buildGraph_def Let_def Graph.simps
  by (rule bfsLoop_width) simp

text \<open>
  The width counts what \<open>name.length\<close> counts. On ASCII names that is the number of
  characters; \<open>U+00DC\<close>, two bytes, counts once, so the eleven letters of the German
  word for a bank transfer give \<open>11 * 7 + 24\<close>; a character outside the basic plane,
  four bytes, counts twice.
\<close>

lemma length_utf16_ascii: "isAscii s \<Longrightarrow> length_utf16 s = length s"
  by (induction s) (auto simp: length_utf16_def isAscii_def isAsciiChar_def
      isContinuationByte_def)

lemma calculateNodeWidth_two_bytes:
  "calculateNodeWidth ([CHR 0xC3, CHR 0x9C] @ ''berweisung'') = 101"
  by (simp add: calculateNodeWidth_def length_utf16_def isContinuationByte_def CHAR_WIDTH_def
      NODE_PADDING_def)

lemma length_utf16_four_bytes: "length_utf16 [CHR 0xF0, CHR 0x9F, CHR 0x98, CHR 0x80] = 2"
  by (simp add: length_utf16_def isContinuationByte_def)

text \<open>
  Claim C9. The layout keeps the nodes and their order. In the laid-out nodes of a built
  graph, every node's \<open>y\<close> is its depth times the level height, every node's width is the
  larger of 60 and the length of its display name (as \<open>name.length\<close> counts it, in UTF-16
  code units) times the character width plus twice the padding, and of two nodes at the same depth the one earlier in the list lies
  wholly to the left of the later one: its right edge \<open>x + width / 2\<close> is below the
  other's left edge \<open>x - width / 2\<close>.
\<close>

theorem layout_geometry:
  "length (laidOut store r sel ex em md) = length (g_nodes (buildGraph store r sel ex em md)) \<and>
   (\<forall>i < length (laidOut store r sel ex em md).
      dn_id (laidOut store r sel ex em md ! i)
        = dn_id (g_nodes (buildGraph store r sel ex em md) ! i) \<and>
      dn_y (laidOut store r sel ex em md ! i)
        = of_nat (dn_depth (laidOut store r sel ex em md ! i)) * LEVEL_HEIGHT \<and>
      dn_width (laidOut store r sel ex em md ! i)
        = max 60 (of_nat (length_utf16 (dn_displayName (laidOut store r sel ex em md ! i)))
            * CHAR_WIDTH + 2 * NODE_PADDING)) \<and>
   (\<forall>i j. i < j \<and> j < length (laidOut store r sel ex em md) \<and>
      dn_depth (laidOut store r sel ex em md ! i) = dn_depth (laidOut store r sel ex em md ! j)
      \<longrightarrow> dn_x (laidOut store r sel ex em md ! i) + dn_width (laidOut store r sel ex em md ! i) / 2
            < dn_x (laidOut store r sel ex em md ! j)
                - dn_width (laidOut store r sel ex em md ! j) / 2)"
proof -
  define ns where "ns = g_nodes (buildGraph store r sel ex em md)"
  define out where "out = laidOut store r sel ex em md"
  have out: "out = layoutNodes ns" by (simp add: out_def ns_def laidOut_def)
  have width: "dn_width (ns ! k) = calculateNodeWidth (dn_displayName (ns ! k))"
    if "k < length ns" for k
    using buildGraph_width [of store r sel ex em md] that unfolding ns_def by simp
  have nonneg: "\<forall>k < length ns. 0 \<le> dn_width (ns ! k)"
    by (simp add: width calculateNodeWidth_def le_max_iff_disj)
  note geo = layoutNodes_geometry [OF nonneg]
  have same: "map unplaced out = map unplaced ns" unfolding out by (rule geo(1))
  note eq = unplaced_same [OF same]
  have sp: "0 < NODE_SPACING" by (simp add: NODE_SPACING_def)
  have a: "length out = length ns" by (rule eq(1))
  have b: "dn_id (out ! i) = dn_id (ns ! i) \<and>
      dn_y (out ! i) = of_nat (dn_depth (out ! i)) * LEVEL_HEIGHT \<and>
      dn_width (out ! i)
        = max 60 (of_nat (length_utf16 (dn_displayName (out ! i))) * CHAR_WIDTH
            + 2 * NODE_PADDING)"
    if "i < length out" for i
  proof -
    have i: "i < length ns" using that a by simp
    have "dn_y (out ! i) = of_nat (dn_depth (ns ! i)) * LEVEL_HEIGHT"
      unfolding out using geo(2) i by simp
    moreover have "dn_width (out ! i) = calculateNodeWidth (dn_displayName (out ! i))"
      using width [OF i] eq(2) [OF i] eq(4) [OF i] by simp
    ultimately show ?thesis using eq(3) [OF i] eq(5) [OF i]
      by (simp add: calculateNodeWidth_def mult.commute)
  qed
  have c: "dn_x (out ! i) + dn_width (out ! i) / 2 < dn_x (out ! j) - dn_width (out ! j) / 2"
    if "i < j \<and> j < length out \<and> dn_depth (out ! i) = dn_depth (out ! j)" for i j
  proof -
    have i: "i < length ns" and j: "j < length ns" using that a by simp_all
    have "dn_depth (ns ! i) = dn_depth (ns ! j)" using that eq(3) [OF i] eq(3) [OF j] by simp
    then have "dn_x (out ! i) + dn_width (ns ! i) / 2 + NODE_SPACING
             \<le> dn_x (out ! j) - dn_width (ns ! j) / 2"
      unfolding out using geo(3) that j by blast
    then show ?thesis using sp eq(2) [OF i] eq(2) [OF j] by simp
  qed
  show ?thesis using a b c unfolding out_def ns_def by blast
qed

text \<open>
  For the diagram rooted at \<open>Order\<close>, the two nodes of depth 1 are placed side by side
  around the centre.
\<close>

lemma laidOut_staff: "map (\<lambda>n. (dn_id n, dn_depth n, dn_x n, dn_y n, dn_width n))
     (laidOut staffState orderEntity (Some orderEntity) {''Order''} staffEntityMap staffMetadata)
  = [(''Order'', 0, 0, 0, 60), (''Customer'', 1, - 50, 80, 80), (''Employee'', 1, 50, 80, 80)]"
  by code_simp

theorem layout_geometry_witness: "map (\<lambda>n. (dn_id n, dn_depth n, dn_x n, dn_y n, dn_width n))
     (laidOut staffState orderEntity (Some orderEntity) {''Order''} staffEntityMap staffMetadata)
  = [(''Order'', 0, 0, 0, 60), (''Customer'', 1, - 50, 80, 80), (''Employee'', 1, 50, 80, 80)] \<and>
  dn_x (laidOut staffState orderEntity (Some orderEntity) {''Order''} staffEntityMap
          staffMetadata ! 1)
    + dn_width (laidOut staffState orderEntity (Some orderEntity) {''Order''} staffEntityMap
          staffMetadata ! 1) / 2
  < dn_x (laidOut staffState orderEntity (Some orderEntity) {''Order''} staffEntityMap
          staffMetadata ! 2)
    - dn_width (laidOut staffState orderEntity (Some orderEntity) {''Order''} staffEntityMap
          staffMetadata ! 2) / 2"
proof -
  have hyp: "(1::nat) < 2 \<and>
      2 < length (laidOut staffState orderEntity (Some orderEntity) {''Order''} staffEntityMap
            staffMetadata) \<and>
      dn_depth (laidOut staffState orderEntity (Some orderEntity) {''Order''} staffEntityMap
            staffMetadata ! 1)
        = dn_depth (laidOut staffState orderEntity (Some orderEntity) {''Order''}
            staffEntityMap staffMetadata ! 2)"
    by code_simp
  note spec = layout_geometry [of staffState orderEntity "Some orderEntity" "{''Order''}" staffEntityMap
      staffMetadata]
  from spec [THEN conjunct2, THEN conjunct2, rule_format, OF hyp] laidOut_staff
  show ?thesis by (rule conjI [rotated])
qed

end
